theory Spec2Isabelle
  imports Main
begin

section \<open>The device controller and its SDK operations\<close>

text \<open>
  \<^verbatim>\<open>czdeviceinfo.cpp\<close> calls four functions of the vendor wrapper on the device
  record \<^verbatim>\<open>_info\<close>: \<^verbatim>\<open>CZCudaPrepareDevice\<close>, \<^verbatim>\<open>CZCudaCalcDeviceBandwidth\<close>,
  \<^verbatim>\<open>CZCudaCalcDevicePerformance\<close> and \<^verbatim>\<open>CZCudaCleanDevice\<close>. Their bodies are not part
  of the file; each takes a pointer to the record and returns an \<^verbatim>\<open>int\<close>
  (\<open>0\<close> on success, \<open>-1\<close> on error). They are parameters of the model: a function from
  the record (type \<open>'d\<close>, the record together with whatever the hardware remembers) to
  the return code and the record as the call leaves it.
\<close>

record 'd sdk =
  CZCudaPrepareDevice :: "'d \<Rightarrow> int \<times> 'd"
  CZCudaCalcDeviceBandwidth :: "'d \<Rightarrow> int \<times> 'd"
  CZCudaCalcDevicePerformance :: "'d \<Rightarrow> int \<times> 'd"
  CZCudaCleanDevice :: "'d \<Rightarrow> int \<times> 'd"

datatype sdk_call = CalcBandwidth | CalcPerformance

text \<open>\<^verbatim>\<open>CZCudaDeviceInfo::prepareDevice\<close>, lines 193-195.\<close>

definition prepareDevice :: "'d sdk \<Rightarrow> 'd \<Rightarrow> int \<times> 'd" where
  "prepareDevice k d = CZCudaPrepareDevice k d"

text \<open>
  \<^verbatim>\<open>CZCudaDeviceInfo::updateInfo\<close>, lines 201-207. The third component lists the SDK
  measurements the call made, in order.
\<close>

definition updateInfo :: "'d sdk \<Rightarrow> 'd \<Rightarrow> int \<times> 'd \<times> sdk_call list" where
  "updateInfo k d =
     (case CZCudaCalcDeviceBandwidth k d of
        (r, d1) \<Rightarrow>
          if r = -1 then (r, d1, [CalcBandwidth])
          else (case CZCudaCalcDevicePerformance k d1 of
                  (r2, d2) \<Rightarrow> (r2, d2, [CalcBandwidth, CalcPerformance])))"

text \<open>\<^verbatim>\<open>CZCudaDeviceInfo::cleanDevice\<close>, lines 213-215.\<close>

definition cleanDevice :: "'d sdk \<Rightarrow> 'd \<Rightarrow> int \<times> 'd" where
  "cleanDevice k d = CZCudaCleanDevice k d"

section \<open>The update thread and its callers as a transition system\<close>

text \<open>
  \<^verbatim>\<open>CZUpdateThread\<close> is shared by the worker thread executing \<^verbatim>\<open>run()\<close>, by the
  threads calling \<^verbatim>\<open>testPerformance\<close> and \<^verbatim>\<open>waitPerformance\<close>, and by the thread
  executing the destructor. Every thread has a program counter named after the source
  line it executes next; one step executes one statement. A \<^verbatim>\<open>QWaitCondition::wait\<close>
  releases the mutex and puts the thread to sleep in one step (counter suffix \<open>s\<close>);
  a wake-up moves a sleeping thread to the counter with suffix \<open>w\<close>, where it takes the
  mutex again before it goes on. \<^verbatim>\<open>wakeOne\<close> and \<^verbatim>\<open>wakeAll\<close> on a condition nobody
  sleeps on do nothing: the wake-up is not remembered. A sleeping thread wakes only when
  woken. Steps of different threads interleave in any order; a read of a member sees the
  last value written (\<^verbatim>\<open>abort\<close> in lines 120 and 140 and \<^verbatim>\<open>index\<close> in lines 137 and
  138 are read without the mutex). The function \<^verbatim>\<open>run()\<close> has no local variable
  \<^verbatim>\<open>index\<close>: line 115 assigns the member to itself, and lines 137 and 138 read the
  member, each on its own: the test of line 137 and the read of the value emitted in
  line 138 are two steps, and a caller may write the member between them.
\<close>

datatype tid = Worker | Client nat | Dtor

datatype wpc =
    W_idle | W105 | W107 | W108 | W109 | W114 | W114s | W114w | W115 | W116
  | W120 | W121 | W125 | W126 | W127 | W128 | W130 | W132 | W133 | W134 | W135
  | W137 | W138 | W140 | W141 | W145 | W148 | W149 | W151 | W_fin

datatype cpc =
    C_idle | C63 | C64 | C65 | C70 | C71s | C71w | C73 | C74
  | C86 | C88 | C89s | C89w | C90 | C91 | C92s | C92w | C93

datatype dpc =
    D_none | D39 | D40 | D41 | D42 | D43 | D44 | D45 | D46 | D47 | D48 | D50 | D_done

datatype op = TestPerformance int | WaitPerformance

text \<open>
  What an observer may see of a run, newest event first: calls and returns of the two
  public functions, a caller's write of the member \<^verbatim>\<open>index\<close> (line 64), the three device
  operations with their return codes, the worker setting (line 126) and clearing
  (line 133) \<^verbatim>\<open>testRunning\<close>, the signal \<^verbatim>\<open>testedPerformance\<close>, the entry into the
  destructor and its return.
\<close>

datatype event =
    Call nat op | Ret nat op | Req nat int
  | Prepared int | Began | Updated int | Ended | Emit int | Cleaned int
  | Destroy | Destroyed

record client =
  cpc :: cpc
  carg :: int
  cwait :: bool

record 'd state =
  mutex :: "tid option"
  abort :: bool
  testRunning :: bool
  deviceReady :: bool
  index :: int
  wpc :: wpc
  clients :: "client list"
  dpc :: dpc
  dev :: 'd
  log :: "event list"

text \<open>The constructor of \<^verbatim>\<open>CZUpdateThread\<close>, lines 19-31, with \<open>n\<close> caller threads.\<close>

definition init :: "nat \<Rightarrow> 'd \<Rightarrow> 'd state" where
  "init n d = \<lparr> mutex = None, abort = False, testRunning = False, deviceReady = False,
     index = -1, wpc = W_idle,
     clients = replicate n \<lparr> cpc = C_idle, carg = 0, cwait = False \<rparr>,
     dpc = D_none, dev = d, log = [] \<rparr>"

definition lock :: "tid \<Rightarrow> 'd state \<Rightarrow> 'd state option" where
  "lock t s = (if mutex s = None then Some (s\<lparr>mutex := Some t\<rparr>) else None)"

definition wakeAll :: "cpc \<Rightarrow> cpc \<Rightarrow> client list \<Rightarrow> client list" where
  "wakeAll a b cs = map (\<lambda>c. if cpc c = a then c\<lparr>cpc := b\<rparr> else c) cs"

definition wakeNewLoop :: "wpc \<Rightarrow> wpc" where
  "wakeNewLoop p = (if p = W114s then W114w else p)"

definition isRunning :: "'d state \<Rightarrow> bool" where
  "isRunning s = (wpc s \<noteq> W_idle \<and> wpc s \<noteq> W_fin)"

text \<open>
  \<^verbatim>\<open>CZUpdateThread::run\<close>, lines 101-152: one step of the worker. The thread has none
  before it is started, while it sleeps in line 114 and after \<^verbatim>\<open>run()\<close> has returned.
\<close>

definition run :: "'d sdk \<Rightarrow> 'd state \<Rightarrow> 'd state option" where
  "run k s =
    (case wpc s of
       W_idle \<Rightarrow> None
     | W105 \<Rightarrow> (case prepareDevice k (dev s) of
                  (r, d) \<Rightarrow> Some (s\<lparr>dev := d, log := Prepared r # log s, wpc := W107\<rparr>))
     | W107 \<Rightarrow> lock Worker (s\<lparr>wpc := W108\<rparr>)
     | W108 \<Rightarrow> Some (s\<lparr>deviceReady := True, wpc := W109\<rparr>)
     | W109 \<Rightarrow> Some (s\<lparr>clients := wakeAll C71s C71w (clients s), wpc := W114\<rparr>)
     | W114 \<Rightarrow> Some (s\<lparr>mutex := None, wpc := W114s\<rparr>)
     | W114s \<Rightarrow> None
     | W114w \<Rightarrow> lock Worker (s\<lparr>wpc := W115\<rparr>)
     | W115 \<Rightarrow> Some (s\<lparr>index := index s, wpc := W116\<rparr>)
     | W116 \<Rightarrow> Some (s\<lparr>mutex := None, wpc := W120\<rparr>)
     | W120 \<Rightarrow> Some (s\<lparr>wpc := (if abort s then W121 else W125)\<rparr>)
     | W121 \<Rightarrow> lock Worker (s\<lparr>wpc := W148\<rparr>)
     | W125 \<Rightarrow> lock Worker (s\<lparr>wpc := W126\<rparr>)
     | W126 \<Rightarrow> Some (s\<lparr>testRunning := True, log := Began # log s, wpc := W127\<rparr>)
     | W127 \<Rightarrow> Some (s\<lparr>clients := wakeAll C89s C89w (clients s), wpc := W128\<rparr>)
     | W128 \<Rightarrow> Some (s\<lparr>mutex := None, wpc := W130\<rparr>)
     | W130 \<Rightarrow> (case updateInfo k (dev s) of
                  (r, d, cs) \<Rightarrow> Some (s\<lparr>dev := d, log := Updated r # log s, wpc := W132\<rparr>))
     | W132 \<Rightarrow> lock Worker (s\<lparr>wpc := W133\<rparr>)
     | W133 \<Rightarrow> Some (s\<lparr>testRunning := False, log := Ended # log s, wpc := W134\<rparr>)
     | W134 \<Rightarrow> Some (s\<lparr>clients := wakeAll C92s C92w (clients s), wpc := W135\<rparr>)
     | W135 \<Rightarrow> Some (s\<lparr>mutex := None, wpc := W137\<rparr>)
     | W137 \<Rightarrow> Some (s\<lparr>wpc := (if index s \<noteq> -1 then W138 else W140)\<rparr>)
     | W138 \<Rightarrow> Some (s\<lparr>log := Emit (index s) # log s, wpc := W140\<rparr>)
     | W140 \<Rightarrow> Some (s\<lparr>wpc := (if abort s then W141 else W145)\<rparr>)
     | W141 \<Rightarrow> lock Worker (s\<lparr>wpc := W148\<rparr>)
     | W145 \<Rightarrow> lock Worker (s\<lparr>wpc := W114\<rparr>)
     | W148 \<Rightarrow> Some (s\<lparr>deviceReady := False, wpc := W149\<rparr>)
     | W149 \<Rightarrow> Some (s\<lparr>mutex := None, wpc := W151\<rparr>)
     | W151 \<Rightarrow> (case cleanDevice k (dev s) of
                  (r, d) \<Rightarrow> Some (s\<lparr>dev := d, log := Cleaned r # log s, wpc := W_fin\<rparr>))
     | W_fin \<Rightarrow> None)"

text \<open>
  A caller thread enters \<^verbatim>\<open>testPerformance(i)\<close> or \<^verbatim>\<open>waitPerformance()\<close>; the latter
  is \<^verbatim>\<open>testPerformance(-1)\<close> followed by lines 86-93. No call begins once the
  destructor has been entered.
\<close>

definition call :: "nat \<Rightarrow> op \<Rightarrow> 'd state \<Rightarrow> 'd state option" where
  "call t f s =
    (if t < length (clients s) \<and> cpc (clients s ! t) = C_idle \<and> dpc s = D_none
     then Some (s\<lparr>clients := (clients s)[t :=
                    \<lparr> cpc = C63,
                      carg = (case f of TestPerformance i \<Rightarrow> i | WaitPerformance \<Rightarrow> -1),
                      cwait = (f = WaitPerformance) \<rparr>],
                  log := Call t f # log s\<rparr>)
     else None)"

definition goto :: "nat \<Rightarrow> cpc \<Rightarrow> 'd state \<Rightarrow> 'd state" where
  "goto t p s = s\<lparr>clients := (clients s)[t := (clients s ! t)\<lparr>cpc := p\<rparr>]\<rparr>"

text \<open>
  \<^verbatim>\<open>CZUpdateThread::testPerformance\<close>, lines 58-75, executed by caller \<open>t\<close>. At its end a
  call of \<^verbatim>\<open>waitPerformance\<close> goes on with line 86.
\<close>

definition testPerformance :: "nat \<Rightarrow> 'd state \<Rightarrow> 'd state option" where
  "testPerformance t s =
    (let c = clients s ! t in
      (case cpc c of
         C63 \<Rightarrow> lock (Client t) (goto t C64 s)
       | C64 \<Rightarrow> Some (goto t C65 (s\<lparr>index := carg c, log := Req t (carg c) # log s\<rparr>))
       | C65 \<Rightarrow> Some (goto t C70 (if \<not> isRunning s then s\<lparr>wpc := W105\<rparr> else s))
       | C70 \<Rightarrow> Some (if \<not> deviceReady s then goto t C71s (s\<lparr>mutex := None\<rparr>)
                      else goto t C73 s)
       | C71w \<Rightarrow> lock (Client t) (goto t C70 s)
       | C73 \<Rightarrow> Some (goto t C74 (s\<lparr>wpc := wakeNewLoop (wpc s)\<rparr>))
       | C74 \<Rightarrow> Some (if cwait c then goto t C86 (s\<lparr>mutex := None\<rparr>)
                      else goto t C_idle
                             (s\<lparr>mutex := None, log := Ret t (TestPerformance (carg c)) # log s\<rparr>))
       | _ \<Rightarrow> None))"

text \<open>
  \<^verbatim>\<open>CZUpdateThread::waitPerformance\<close>, lines 80-96, behind its call of
  \<^verbatim>\<open>testPerformance(-1)\<close>.
\<close>

definition waitPerformance :: "nat \<Rightarrow> 'd state \<Rightarrow> 'd state option" where
  "waitPerformance t s =
    (case cpc (clients s ! t) of
       C86 \<Rightarrow> lock (Client t) (goto t C88 s)
     | C88 \<Rightarrow> Some (if \<not> testRunning s then goto t C89s (s\<lparr>mutex := None\<rparr>)
                    else goto t C90 s)
     | C89w \<Rightarrow> lock (Client t) (goto t C88 s)
     | C90 \<Rightarrow> Some (goto t C91 s)
     | C91 \<Rightarrow> Some (if testRunning s then goto t C92s (s\<lparr>mutex := None\<rparr>)
                    else goto t C93 s)
     | C92w \<Rightarrow> lock (Client t) (goto t C91 s)
     | C93 \<Rightarrow> Some (goto t C_idle (s\<lparr>mutex := None, log := Ret t WaitPerformance # log s\<rparr>))
     | _ \<Rightarrow> None)"

text \<open>
  A step of caller \<open>t\<close>. An idle caller and a caller asleep on a condition (\<open>C71s\<close>,
  \<open>C89s\<close>, \<open>C92s\<close>) have none.
\<close>

definition cstep :: "nat \<Rightarrow> 'd state \<Rightarrow> 'd state option" where
  "cstep t s =
    (if \<not> t < length (clients s) then None
     else (case testPerformance t s of
             Some s' \<Rightarrow> Some s'
           | None \<Rightarrow> waitPerformance t s))"

text \<open>
  \<^verbatim>\<open>CZUpdateThread::~CZUpdateThread\<close>, lines 37-53. \<^verbatim>\<open>readyForWork.wakeOne()\<close> wakes
  one of the sleeping callers: the argument \<open>j\<close> says which, and is ignored when nobody
  sleeps there. \<^verbatim>\<open>QThread::wait()\<close> returns when the thread has finished or was never
  started.
\<close>

definition destroy :: "'d state \<Rightarrow> 'd state option" where
  "destroy s = (if dpc s = D_none then Some (s\<lparr>dpc := D39, log := Destroy # log s\<rparr>) else None)"

definition destructor :: "nat \<Rightarrow> 'd state \<Rightarrow> 'd state option" where
  "destructor j s =
    (case dpc s of
       D_none \<Rightarrow> None
     | D39 \<Rightarrow> lock Dtor (s\<lparr>dpc := D40\<rparr>)
     | D40 \<Rightarrow> Some (s\<lparr>deviceReady := True, dpc := D41\<rparr>)
     | D41 \<Rightarrow> (if j < length (clients s) \<and> cpc (clients s ! j) = C71s
               then Some (goto j C71w (s\<lparr>dpc := D42\<rparr>))
               else if list_all (\<lambda>c. cpc c \<noteq> C71s) (clients s)
               then Some (s\<lparr>dpc := D42\<rparr>)
               else None)
     | D42 \<Rightarrow> Some (s\<lparr>abort := True, dpc := D43\<rparr>)
     | D43 \<Rightarrow> Some (s\<lparr>wpc := wakeNewLoop (wpc s), dpc := D44\<rparr>)
     | D44 \<Rightarrow> Some (s\<lparr>testRunning := True, dpc := D45\<rparr>)
     | D45 \<Rightarrow> Some (s\<lparr>clients := wakeAll C89s C89w (clients s), dpc := D46\<rparr>)
     | D46 \<Rightarrow> Some (s\<lparr>testRunning := False, dpc := D47\<rparr>)
     | D47 \<Rightarrow> Some (s\<lparr>clients := wakeAll C92s C92w (clients s), dpc := D48\<rparr>)
     | D48 \<Rightarrow> Some (s\<lparr>mutex := None, dpc := D50\<rparr>)
     | D50 \<Rightarrow> (if isRunning s then None
               else Some (s\<lparr>dpc := D_done, log := Destroyed # log s\<rparr>))
     | D_done \<Rightarrow> None)"

text \<open>
  \<^verbatim>\<open>_thread->start()\<close> in the constructor of \<^verbatim>\<open>CZCudaDeviceInfo\<close>, line 171.
\<close>

definition start :: "'d state \<Rightarrow> 'd state option" where
  "start s = (if wpc s = W_idle \<and> dpc s = D_none then Some (s\<lparr>wpc := W105\<rparr>) else None)"

datatype action = AStart | ACall nat op | AClient nat | AWorker | ADestroy | ADtor nat

definition step :: "'d sdk \<Rightarrow> action \<Rightarrow> 'd state \<Rightarrow> 'd state option" where
  "step k a s =
    (case a of
       AStart \<Rightarrow> start s
     | ACall t f \<Rightarrow> call t f s
     | AClient t \<Rightarrow> cstep t s
     | AWorker \<Rightarrow> run k s
     | ADestroy \<Rightarrow> destroy s
     | ADtor j \<Rightarrow> destructor j s)"

text \<open>A schedule is a list of actions, executed from left to right.\<close>

fun exec :: "'d sdk \<Rightarrow> action list \<Rightarrow> 'd state \<Rightarrow> 'd state option" where
  "exec k [] s = Some s"
| "exec k (a # as) s = (case step k a s of None \<Rightarrow> None | Some s' \<Rightarrow> exec k as s')"

section \<open>Auxiliary definitions\<close>

subsection \<open>Who holds the mutex\<close>

text \<open>
  The program counters at which a thread holds the mutex: between a \<^verbatim>\<open>lock()\<close> (or the
  return of a \<^verbatim>\<open>wait\<close>) and the next \<^verbatim>\<open>unlock()\<close> (or the next \<^verbatim>\<open>wait\<close>).
\<close>

fun whold :: "wpc \<Rightarrow> bool" where
  "whold W108 = True" | "whold W109 = True" | "whold W114 = True" | "whold W115 = True"
| "whold W116 = True" | "whold W126 = True" | "whold W127 = True" | "whold W128 = True"
| "whold W133 = True" | "whold W134 = True" | "whold W135 = True" | "whold W148 = True"
| "whold W149 = True" | "whold _ = False"

fun chold :: "cpc \<Rightarrow> bool" where
  "chold C64 = True" | "chold C65 = True" | "chold C70 = True" | "chold C73 = True"
| "chold C74 = True" | "chold C88 = True" | "chold C90 = True" | "chold C91 = True"
| "chold C93 = True" | "chold _ = False"

fun dhold :: "dpc \<Rightarrow> bool" where
  "dhold D40 = True" | "dhold D41 = True" | "dhold D42 = True" | "dhold D43 = True"
| "dhold D44 = True" | "dhold D45 = True" | "dhold D46 = True" | "dhold D47 = True"
| "dhold D48 = True" | "dhold _ = False"

text \<open>
  A thread at such a counter is the owner recorded in \<open>mutex\<close>; \<open>hold_g\<close> says so for
  the worker and the destructor, \<open>hold_c\<close> for caller \<open>u\<close>.
\<close>

definition hold_g :: "'d state \<Rightarrow> bool" where
  "hold_g s = ((whold (wpc s) \<longrightarrow> mutex s = Some Worker) \<and>
               (dhold (dpc s) \<longrightarrow> mutex s = Some Dtor))"

definition hold_c :: "'d state \<Rightarrow> nat \<Rightarrow> bool" where
  "hold_c s u = (chold (cpc (clients s ! u)) \<longrightarrow> mutex s = Some (Client u))"

definition holder_ok :: "'d state \<Rightarrow> bool" where
  "holder_ok s = (hold_g s \<and> (\<forall>u < length (clients s). hold_c s u))"

subsection \<open>Reading the event list\<close>

text \<open>
  The event list is newest first. \<open>phase\<close> is the state of the newest pass: 0 when no
  pass is open, 1 after \<open>Began\<close>, 2 after \<open>Updated\<close> and before \<open>Ended\<close>.
  \<open>serial\<close> holds of a list in which every \<open>Began\<close> follows a closed pass, every
  \<open>Updated\<close> a \<open>Began\<close>, and every \<open>Ended\<close> an \<open>Updated\<close>.
\<close>

fun phase :: "event list \<Rightarrow> nat" where
  "phase [] = 0"
| "phase (Began # es) = 1"
| "phase (Updated r # es) = 2"
| "phase (Ended # es) = 0"
| "phase (e # es) = phase es"

fun serial :: "event list \<Rightarrow> bool" where
  "serial [] = True"
| "serial (Began # es) = (phase es = 0 \<and> serial es)"
| "serial (Updated r # es) = (phase es = 1 \<and> serial es)"
| "serial (Ended # es) = (phase es = 2 \<and> serial es)"
| "serial (e # es) = serial es"

text \<open>
The phase the worker's program counter stands for.
\<close>

fun wphase :: "wpc \<Rightarrow> nat" where
  "wphase W127 = 1" | "wphase W128 = 1" | "wphase W130 = 1"
| "wphase W132 = 2" | "wphase W133 = 2"
| "wphase _ = 0"

text \<open>
  The value most recently written to the member \<^verbatim>\<open>index\<close> (\<open>-1\<close>, the constructor's
  value, when nobody has written it), and the lists in which every emitted index is the
  value most recently written before the emission.
\<close>

fun last_req :: "event list \<Rightarrow> int" where
  "last_req [] = -1"
| "last_req (Req t i # es) = i"
| "last_req (e # es) = last_req es"

fun emits_ok :: "event list \<Rightarrow> bool" where
  "emits_ok [] = True"
| "emits_ok (Emit i # es) = (i = last_req es \<and> emits_ok es)"
| "emits_ok (e # es) = emits_ok es"

definition pass_ok :: "'d state \<Rightarrow> bool" where
  "pass_ok s = (serial (log s) \<and> phase (log s) = wphase (wpc s))"

definition req_ok :: "'d state \<Rightarrow> bool" where
  "req_ok s = (index s = last_req (log s) \<and> emits_ok (log s))"

text \<open>
  As long as the destructor has not been entered, \<^verbatim>\<open>testRunning\<close> is set exactly while a
  pass is open.
\<close>

definition flag_ok :: "'d state \<Rightarrow> bool" where
  "flag_ok s = (dpc s = D_none \<longrightarrow> testRunning s = (phase (log s) \<noteq> 0))"

definition log_ok :: "'d state \<Rightarrow> bool" where
  "log_ok s = (pass_ok s \<and> req_ok s \<and> flag_ok s)"

subsection \<open>The guarded waits of the callers\<close>

text \<open>
  Caller \<open>u\<close> stands behind the loop of lines 70-71 only with \<^verbatim>\<open>deviceReady\<close> set,
  behind the loop of lines 88-89 only with \<^verbatim>\<open>testRunning\<close> set, and behind the loop of
  lines 91-92 only with \<^verbatim>\<open>testRunning\<close> clear.
\<close>

definition guard_c :: "'d state \<Rightarrow> nat \<Rightarrow> bool" where
  "guard_c s u =
     ((cpc (clients s ! u) = C73 \<longrightarrow> deviceReady s) \<and>
      (cpc (clients s ! u) = C90 \<longrightarrow> testRunning s) \<and>
      (cpc (clients s ! u) = C93 \<longrightarrow> \<not> testRunning s))"

definition guard_ok :: "'d state \<Rightarrow> bool" where
  "guard_ok s = (holder_ok s \<and> (\<forall>u < length (clients s). guard_c s u))"

subsection \<open>What a call of \<^verbatim>\<open>waitPerformance\<close> has seen\<close>

text \<open>
  The events since caller \<open>t\<close> last entered \<^verbatim>\<open>waitPerformance\<close>, and the lists in
  which the newest \<open>Ended\<close> is newer than a write of \<open>-1\<close> by \<open>t\<close>.
\<close>

definition since :: "nat \<Rightarrow> event list \<Rightarrow> event list" where
  "since t es = takeWhile (\<lambda>e. e \<noteq> Call t WaitPerformance) es"

definition ended_after_request :: "nat \<Rightarrow> event list \<Rightarrow> bool" where
  "ended_after_request t es = (Req t (-1) \<in> set (dropWhile (\<lambda>e. e \<noteq> Ended) es))"

text \<open>
Stages of a call: behind line 64, inside or behind the second loop, inside lines 86-93.
\<close>

fun past64 :: "cpc \<Rightarrow> bool" where
  "past64 C_idle = False" | "past64 C63 = False" | "past64 C64 = False" | "past64 _ = True"

fun inloop2 :: "cpc \<Rightarrow> bool" where
  "inloop2 C90 = True" | "inloop2 C91 = True" | "inloop2 C92s = True" | "inloop2 C92w = True"
| "inloop2 _ = False"

fun inwait :: "cpc \<Rightarrow> bool" where
  "inwait C86 = True" | "inwait C88 = True" | "inwait C89s = True" | "inwait C89w = True"
| "inwait C90 = True" | "inwait C91 = True" | "inwait C92s = True" | "inwait C92w = True"
| "inwait C93 = True" | "inwait _ = False"

definition wait_c :: "'d state \<Rightarrow> nat \<Rightarrow> bool" where
  "wait_c s u =
     ((inwait (cpc (clients s ! u)) \<longrightarrow> cwait (clients s ! u)) \<and>
      (cwait (clients s ! u) \<longrightarrow>
        (cpc (clients s ! u) \<noteq> C_idle \<longrightarrow> carg (clients s ! u) = -1) \<and>
        (past64 (cpc (clients s ! u)) \<longrightarrow> Req u (-1) \<in> set (since u (log s))) \<and>
        (inloop2 (cpc (clients s ! u)) \<longrightarrow>
           testRunning s \<or> ended_after_request u (since u (log s))) \<and>
        (cpc (clients s ! u) = C93 \<longrightarrow> ended_after_request u (since u (log s)))))"

definition ret_ok :: "'d state \<Rightarrow> bool" where
  "ret_ok s =
     (\<forall>t rest. log s = Ret t WaitPerformance # rest \<longrightarrow> ended_after_request t (since t rest))"

definition wait_ok :: "'d state \<Rightarrow> bool" where
  "wait_ok s = (dpc s = D_none \<longrightarrow> ret_ok s \<and> (\<forall>u < length (clients s). wait_c s u))"

text \<open>
  The events up to and including the call, whether a pass was open when it was made, and
  the lists in which the newest \<open>Ended\<close> is newer than a \<open>Began\<close>.
\<close>

definition before :: "nat \<Rightarrow> event list \<Rightarrow> event list" where
  "before t es = dropWhile (\<lambda>e. e \<noteq> Call t WaitPerformance) es"

definition idle_at_call :: "nat \<Rightarrow> event list \<Rightarrow> bool" where
  "idle_at_call t es = (phase (before t es) = 0)"

definition began_then_ended :: "event list \<Rightarrow> bool" where
  "began_then_ended es = (Began \<in> set (dropWhile (\<lambda>e. e \<noteq> Ended) es))"




subsection \<open>Teardown\<close>

text \<open>
\<^verbatim>\<open>cleanDevice\<close> has been called.
\<close>

fun cleaned :: "event list \<Rightarrow> bool" where
  "cleaned [] = False"
| "cleaned (Cleaned r # es) = True"
| "cleaned (e # es) = cleaned es"

text \<open>
  An upper bound on the number of statements the worker still executes before \<^verbatim>\<open>run()\<close>
  returns, once \<^verbatim>\<open>abort\<close> is set and it is at one of the counters listed.
\<close>

fun wrank :: "wpc \<Rightarrow> nat" where
  "wrank W130 = 12" | "wrank W132 = 11" | "wrank W133 = 10" | "wrank W134 = 9"
| "wrank W135 = 8" | "wrank W137 = 7" | "wrank W138 = 6" | "wrank W140 = 5" | "wrank W141 = 4"
| "wrank W148 = 3" | "wrank W149 = 2" | "wrank W151 = 1"
| "wrank W114s = 8" | "wrank W114w = 8" | "wrank W115 = 7" | "wrank W116 = 6"
| "wrank W120 = 5" | "wrank W121 = 4"
| "wrank _ = 0"

text \<open>
  Where the worker may be while the destructor holds the mutex (before the wake-up of
  line 43 and after it), once the destructor has released the mutex, and after the
  clean-up.
\<close>

fun w_before :: "wpc \<Rightarrow> bool" where
  "w_before W114s = True" | "w_before W130 = True" | "w_before W132 = True" | "w_before _ = False"

fun w_woken :: "wpc \<Rightarrow> bool" where
  "w_woken W114w = True" | "w_woken W130 = True" | "w_woken W132 = True" | "w_woken _ = False"

fun w_leaving :: "wpc \<Rightarrow> bool" where
  "w_leaving W114w = True" | "w_leaving W115 = True" | "w_leaving W116 = True"
| "w_leaving W120 = True" | "w_leaving W121 = True" | "w_leaving W130 = True"
| "w_leaving W132 = True" | "w_leaving W133 = True" | "w_leaving W134 = True"
| "w_leaving W135 = True" | "w_leaving W137 = True" | "w_leaving W138 = True"
| "w_leaving W140 = True"
| "w_leaving W141 = True" | "w_leaving W148 = True" | "w_leaving W149 = True"
| "w_leaving W151 = True" | "w_leaving _ = False"

fun w_after :: "wpc \<Rightarrow> bool" where
  "w_after W_fin = True" | "w_after W105 = True" | "w_after W107 = True" | "w_after W108 = True"
| "w_after W109 = True" | "w_after W114 = True" | "w_after W114s = True" | "w_after W114w = True"
| "w_after W115 = True" | "w_after W116 = True" | "w_after W120 = True" | "w_after W121 = True"
| "w_after W148 = True" | "w_after W149 = True" | "w_after W151 = True" | "w_after _ = False"

fun tear_w :: "dpc \<Rightarrow> bool \<Rightarrow> bool \<Rightarrow> wpc \<Rightarrow> bool" where
  "tear_w D40 ab cl p = (\<not> cl \<and> w_before p)"
| "tear_w D41 ab cl p = (\<not> cl \<and> w_before p)"
| "tear_w D42 ab cl p = (\<not> cl \<and> w_before p)"
| "tear_w D43 ab cl p = (\<not> cl \<and> ab \<and> w_before p)"
| "tear_w D44 ab cl p = (\<not> cl \<and> ab \<and> w_woken p)"
| "tear_w D45 ab cl p = (\<not> cl \<and> ab \<and> w_woken p)"
| "tear_w D46 ab cl p = (\<not> cl \<and> ab \<and> w_woken p)"
| "tear_w D47 ab cl p = (\<not> cl \<and> ab \<and> w_woken p)"
| "tear_w D48 ab cl p = (\<not> cl \<and> ab \<and> w_woken p)"
| "tear_w D50 ab cl p = (ab \<and> (if cl then w_after p else w_leaving p))"
| "tear_w D_done ab cl p = (ab \<and> cl \<and> w_after p)"
| "tear_w _ ab cl p = False"

definition tear :: "'d state \<Rightarrow> bool" where
  "tear s = tear_w (dpc s) (abort s) (cleaned (log s)) (wpc s)"

text \<open>
  \<^verbatim>\<open>abort\<close> is set only by line 42, and the worker leaves its loop only with
  \<^verbatim>\<open>abort\<close> set.
\<close>

fun dpast42 :: "dpc \<Rightarrow> bool" where
  "dpast42 D_none = False" | "dpast42 D39 = False" | "dpast42 D40 = False"
| "dpast42 D41 = False" | "dpast42 D42 = False" | "dpast42 _ = True"

fun wexit :: "wpc \<Rightarrow> bool" where
  "wexit W121 = True" | "wexit W141 = True" | "wexit W148 = True" | "wexit W149 = True"
| "wexit W151 = True" | "wexit _ = False"

definition abort_ok :: "'d state \<Rightarrow> bool" where
  "abort_ok s = ((abort s \<longrightarrow> dpast42 (dpc s)) \<and> (wexit (wpc s) \<longrightarrow> abort s) \<and>
                 (cleaned (log s) \<longrightarrow> abort s))"

text \<open>
The owner recorded in \<open>mutex\<close> is at a counter where it holds the mutex.
\<close>

definition owner_ok :: "'d state \<Rightarrow> bool" where
  "owner_ok s =
     (case mutex s of
        None \<Rightarrow> True
      | Some Worker \<Rightarrow> whold (wpc s)
      | Some Dtor \<Rightarrow> dhold (dpc s)
      | Some (Client t) \<Rightarrow> t < length (clients s) \<and> chold (cpc (clients s ! t)))"

text \<open>
The thread that executes an action.
\<close>

fun actor :: "action \<Rightarrow> tid option" where
  "actor (AClient t) = Some (Client t)"
| "actor AWorker = Some Worker"
| "actor (ADtor j) = Some Dtor"
| "actor _ = None"

definition teardown_inv :: "'d state \<Rightarrow> bool" where
  "teardown_inv s = (holder_ok s \<and> owner_ok s \<and> log_ok s \<and> tear s)"

subsection \<open>Return codes and the device record\<close>

text \<open>
  \<open>control\<close> is the state without the device record, the logged return codes erased.
  \<open>redo\<close> repeats on a record the device operation an event stands for.
\<close>

fun erase :: "event \<Rightarrow> event" where
  "erase (Prepared r) = Prepared 0"
| "erase (Updated r) = Updated 0"
| "erase (Cleaned r) = Cleaned 0"
| "erase e = e"

definition control ::
  "'d state \<Rightarrow> tid option \<times> bool \<times> bool \<times> bool \<times> int \<times> wpc \<times> client list \<times> dpc \<times> event list" where
  "control s = (mutex s, abort s, testRunning s, deviceReady s, index s, wpc s, clients s,
                dpc s, map erase (log s))"

fun redo :: "'d sdk \<Rightarrow> event \<Rightarrow> 'd \<Rightarrow> 'd" where
  "redo k (Prepared r) d = snd (prepareDevice k d)"
| "redo k (Updated r) d = fst (snd (updateInfo k d))"
| "redo k (Cleaned r) d = snd (cleanDevice k d)"
| "redo k e d = d"

definition record_ok :: "'d sdk \<Rightarrow> 'd \<Rightarrow> 'd state \<Rightarrow> bool" where
  "record_ok k d s = (dev s = foldr (redo k) (log s) d)"

subsection \<open>A call of \<^verbatim>\<open>testPerformance\<close>\<close>

text \<open>
  Caller inside lines 63-74, and an upper bound on the number of statements it still
  executes there; the bound at line 70 depends on \<^verbatim>\<open>deviceReady\<close>.
\<close>

fun intest :: "cpc \<Rightarrow> bool" where
  "intest C63 = True" | "intest C64 = True" | "intest C65 = True" | "intest C70 = True"
| "intest C71s = True" | "intest C71w = True" | "intest C73 = True" | "intest C74 = True"
| "intest _ = False"

fun crank :: "bool \<Rightarrow> cpc \<Rightarrow> nat" where
  "crank r C63 = 9" | "crank r C64 = 8" | "crank r C65 = 7"
| "crank r C70 = (if r then 3 else 6)" | "crank r C71s = 5" | "crank r C71w = 4"
| "crank r C73 = 2" | "crank r C74 = 1" | "crank r _ = 0"

text \<open>
  The number of statements the worker still executes up to and including the
  \<^verbatim>\<open>wakeAll\<close> of line 109, while it is in lines 105-109; the counters at which it has
  set \<^verbatim>\<open>deviceReady\<close>; and the counters of a caller behind line 65.
\<close>

fun wprep :: "wpc \<Rightarrow> nat" where
  "wprep W105 = 4" | "wprep W107 = 3" | "wprep W108 = 2" | "wprep W109 = 1" | "wprep _ = 0"

fun wready :: "wpc \<Rightarrow> bool" where
  "wready W_idle = False" | "wready W105 = False" | "wready W107 = False"
| "wready W108 = False" | "wready _ = True"

fun started :: "cpc \<Rightarrow> bool" where
  "started C70 = True" | "started C71s = True" | "started C71w = True" | "started C73 = True"
| "started C74 = True" | "started _ = False"

text \<open>
  The number of statements a thread still executes before it gives up the mutex, by
  \<^verbatim>\<open>unlock()\<close> or by a \<^verbatim>\<open>wait\<close>: for the worker, for a caller and for the destructor.
  \<open>sect\<close> is that number for the thread recorded in \<open>mutex\<close>.
\<close>

fun wsect :: "wpc \<Rightarrow> nat" where
  "wsect W108 = 3" | "wsect W109 = 2" | "wsect W114 = 1" | "wsect W115 = 2" | "wsect W116 = 1"
| "wsect W126 = 3" | "wsect W127 = 2" | "wsect W128 = 1" | "wsect W133 = 3" | "wsect W134 = 2"
| "wsect W135 = 1" | "wsect W148 = 2" | "wsect W149 = 1" | "wsect _ = 0"

fun csect :: "cpc \<Rightarrow> nat" where
  "csect C64 = 5" | "csect C65 = 4" | "csect C70 = 3" | "csect C73 = 2" | "csect C74 = 1"
| "csect C88 = 4" | "csect C90 = 3" | "csect C91 = 2" | "csect C93 = 1" | "csect _ = 0"

fun dsect :: "dpc \<Rightarrow> nat" where
  "dsect D40 = 9" | "dsect D41 = 8" | "dsect D42 = 7" | "dsect D43 = 6" | "dsect D44 = 5"
| "dsect D45 = 4" | "dsect D46 = 3" | "dsect D47 = 2" | "dsect D48 = 1" | "dsect _ = 0"

definition sect :: "'d state \<Rightarrow> nat" where
  "sect s =
     (case mutex s of
        None \<Rightarrow> 0
      | Some Worker \<Rightarrow> wsect (wpc s)
      | Some (Client u) \<Rightarrow> csect (cpc (clients s ! u))
      | Some Dtor \<Rightarrow> dsect (dpc s))"

text \<open>
  Between the states \<open>s1\<close> and \<open>s\<close> a call \<^verbatim>\<open>testPerformance(i)\<close> of caller \<open>t\<close> has
  returned, and caller \<open>t\<close> has written \<open>i\<close> to \<^verbatim>\<open>index\<close>.
\<close>

definition returned :: "nat \<Rightarrow> int \<Rightarrow> 'd state \<Rightarrow> 'd state \<Rightarrow> bool" where
  "returned t i s1 s =
     (count_list (log s1) (Ret t (TestPerformance i)) < count_list (log s) (Ret t (TestPerformance i)))"

definition requested :: "nat \<Rightarrow> int \<Rightarrow> 'd state \<Rightarrow> 'd state \<Rightarrow> bool" where
  "requested t i s1 s = (count_list (log s1) (Req t i) < count_list (log s) (Req t i))"

text \<open>
  As long as the destructor has not been entered, \<^verbatim>\<open>abort\<close> is clear, the worker is
  not on its way out, and \<^verbatim>\<open>deviceReady\<close> is set exactly when the worker is behind
  line 108. A caller at line 74 has woken the worker. As long as the destructor has not
  been entered, a caller behind line 65 finds the thread started, sleeps in line 71 only
  while the worker is in lines 105-109, and is woken there only with
  \<^verbatim>\<open>deviceReady\<close> set.
\<close>

definition ready_g :: "'d state \<Rightarrow> bool" where
  "ready_g s = (dpc s = D_none \<longrightarrow>
     \<not> abort s \<and> \<not> wexit (wpc s) \<and> wpc s \<noteq> W_fin \<and> deviceReady s = wready (wpc s))"

definition ready_c :: "'d state \<Rightarrow> nat \<Rightarrow> bool" where
  "ready_c s u =
     ((cpc (clients s ! u) = C74 \<longrightarrow> wpc s \<noteq> W114s) \<and>
      (dpc s = D_none \<longrightarrow>
        (started (cpc (clients s ! u)) \<longrightarrow> wpc s \<noteq> W_idle) \<and>
        (cpc (clients s ! u) = C71s \<longrightarrow> 0 < wprep (wpc s)) \<and>
        (cpc (clients s ! u) = C71w \<longrightarrow> deviceReady s)))"

definition ready_ok :: "'d state \<Rightarrow> bool" where
  "ready_ok s = (holder_ok s \<and> ready_g s \<and> (\<forall>u < length (clients s). ready_c s u))"

text \<open>
  Caller \<open>t\<close> is inside a call \<^verbatim>\<open>testPerformance(i)\<close>. \<open>call_c\<close> follows such a call
  from the numbers \<open>r0\<close> and \<open>q0\<close> of returns and writes logged when it was made.
\<close>

definition incall :: "int \<Rightarrow> 'd state \<Rightarrow> nat \<Rightarrow> bool" where
  "incall i s t = (intest (cpc (clients s ! t)) \<and> \<not> cwait (clients s ! t) \<and>
                   carg (clients s ! t) = i)"

definition call_c :: "nat \<Rightarrow> nat \<Rightarrow> nat \<Rightarrow> int \<Rightarrow> 'd state \<Rightarrow> bool" where
  "call_c r0 q0 t i s =
     (r0 \<le> count_list (log s) (Ret t (TestPerformance i)) \<and>
      q0 \<le> count_list (log s) (Req t i) \<and>
      (r0 < count_list (log s) (Ret t (TestPerformance i)) \<longrightarrow>
         q0 < count_list (log s) (Req t i)) \<and>
      (count_list (log s) (Ret t (TestPerformance i)) = r0 \<longrightarrow>
         incall i s t \<and> (past64 (cpc (clients s ! t)) \<longrightarrow> q0 < count_list (log s) (Req t i))))"

subsection \<open>Concrete devices and schedules\<close>

text \<open>
  A device whose operations all succeed and count the measurements in the record, and one
  whose preparation, bandwidth measurement and clean-up fail and leave the record as it
  is.
\<close>

definition sdk_ok :: "nat sdk" where
  "sdk_ok = \<lparr> CZCudaPrepareDevice = (\<lambda>d. (0, d)),
              CZCudaCalcDeviceBandwidth = (\<lambda>d. (0, Suc d)),
              CZCudaCalcDevicePerformance = (\<lambda>d. (0, Suc d)),
              CZCudaCleanDevice = (\<lambda>d. (0, d)) \<rparr>"

definition sdk_fail :: "nat sdk" where
  "sdk_fail = \<lparr> CZCudaPrepareDevice = (\<lambda>d. (-1, d)),
                CZCudaCalcDeviceBandwidth = (\<lambda>d. (-1, d)),
                CZCudaCalcDevicePerformance = (\<lambda>d. (0, Suc d)),
                CZCudaCleanDevice = (\<lambda>d. (-1, d)) \<rparr>"

text \<open>
  The schedules used below. \<open>boot\<close> starts the thread and lets the worker run up to its
  wait of line 114; \<open>request5\<close> is a complete call \<^verbatim>\<open>testPerformance(5)\<close> of caller 0.
\<close>

definition boot :: "action list" where
  "boot = AStart # replicate 5 AWorker"

definition request5 :: "action list" where
  "request5 = ACall 0 (TestPerformance 5) # replicate 6 (AClient 0)"

definition c1_trace :: "action list" where
  "c1_trace = boot @ request5 @ replicate 8 AWorker @
     ACall 0 WaitPerformance # replicate 10 (AClient 0) @
     ADestroy # replicate 10 (ADtor 0) @ replicate 3 (AClient 0)"

definition c2_trace :: "action list" where
  "c2_trace = boot @ request5 @ replicate 8 AWorker @
     ACall 0 WaitPerformance # replicate 10 (AClient 0) @
     replicate 5 AWorker @ replicate 3 (AClient 0)"


definition c3_trace :: "action list" where
  "c3_trace = boot @ request5 @ request5 @ replicate 18 AWorker"

definition c5_trace :: "action list" where
  "c5_trace = boot @ ACall 0 WaitPerformance # replicate 6 (AClient 0) @
     replicate 17 AWorker @ replicate 2 (AClient 0) @
     ADestroy # replicate 10 (ADtor 0) @ replicate 2 (AClient 0) @
     replicate 8 AWorker @ [ADtor 0]"

definition c6_trace :: "action list" where
  "c6_trace = boot @ request5 @ replicate 8 AWorker @
     ACall 0 (TestPerformance 7) # replicate 6 (AClient 0) @ replicate 10 AWorker"

definition mid_pass_trace :: "action list" where
  "mid_pass_trace = boot @ request5 @ replicate 8 AWorker"

definition teardown_before :: "action list" where
  "teardown_before = boot @ request5 @ replicate 8 AWorker @ [ADestroy, ADtor 0]"

definition teardown_late :: "action list" where
  "teardown_late = boot @ request5 @ replicate 16 AWorker @
     ADestroy # replicate 10 (ADtor 0) @ replicate 2 AWorker"

definition teardown_after :: "action list" where
  "teardown_after = replicate 9 (ADtor 0) @ replicate 12 AWorker @ [ADtor 0]"

definition at_line73 :: "action list" where
  "at_line73 = boot @ ACall 0 (TestPerformance 5) # replicate 4 (AClient 0)"

definition at_line90 :: "action list" where
  "at_line90 = boot @ request5 @ replicate 8 AWorker @
     ACall 0 WaitPerformance # replicate 8 (AClient 0)"

definition at_line93 :: "action list" where
  "at_line93 = boot @ request5 @ replicate 8 AWorker @
     ACall 0 WaitPerformance # replicate 10 (AClient 0) @
     replicate 5 AWorker @ replicate 2 (AClient 0)"

definition teardown_at_start :: "action list" where
  "teardown_at_start = AStart # ADestroy # replicate 10 (ADtor 0) @ replicate 5 AWorker"

definition missed_pass_trace :: "action list" where
  "missed_pass_trace = boot @ request5 @ replicate 8 AWorker @
     ACall 0 WaitPerformance # replicate 6 (AClient 0) @ replicate 9 AWorker @
     replicate 2 (AClient 0)"

definition race_trace :: "action list" where
  "race_trace = boot @ request5 @ replicate 14 AWorker @
     ACall 0 WaitPerformance # replicate 2 (AClient 0) @ [AWorker]"

definition prepare_trace :: "action list" where
  "prepare_trace = AStart # ACall 0 (TestPerformance 3) # replicate 4 (AClient 0)"

definition c7_trace :: "action list" where
  "c7_trace = boot @ ACall 0 (TestPerformance 3) # ADestroy # replicate 10 (ADtor 0) @
     replicate 7 AWorker @ replicate 4 (AClient 0) @ [AWorker, ADtor 0]"

section \<open>Invariants\<close>

subsection \<open>Schedules and mutual exclusion\<close>

lemma exec_invariant:
  assumes "exec k tr s0 = Some s" and "P s0"
    and "\<And>a s s'. P s \<Longrightarrow> step k a s = Some s' \<Longrightarrow> P s'"
  shows "P s"
  using assms(1,2)
proof (induction tr arbitrary: s0)
  case Nil
  then show ?case by simp
next
  case (Cons a tr)
  from Cons.prems(1) obtain s1 where s1: "step k a s0 = Some s1" and r: "exec k tr s1 = Some s"
    by (auto split: option.splits)
  from assms(3)[OF Cons.prems(2) s1] have "P s1" .
  with Cons.IH[OF r] show ?case .
qed

lemma exec_append:
  "exec k (xs @ ys) s = (case exec k xs s of None \<Rightarrow> None | Some s' \<Rightarrow> exec k ys s')"
  by (induction xs arbitrary: s) (auto split: option.splits)

lemma length_wakeAll [simp]: "length (wakeAll a b cs) = length cs"
  by (simp add: wakeAll_def)

lemma nth_wakeAll [simp]:
  "t < length cs \<Longrightarrow> wakeAll a b cs ! t = (if cpc (cs ! t) = a then (cs ! t)\<lparr>cpc := b\<rparr> else cs ! t)"
  by (simp add: wakeAll_def)

lemma holder_ok_init: "holder_ok (init n d)"
  by (auto simp: holder_ok_def hold_g_def hold_c_def init_def)

lemma cstep_valid: "cstep t s = Some s' \<Longrightarrow> t < length (clients s)"
  by (auto simp: cstep_def split: if_splits)

lemmas cstep_unfold = cstep_def testPerformance_def waitPerformance_def Let_def lock_def goto_def wakeNewLoop_def isRunning_def nth_list_update
lemmas destructor_unfold = destructor_def lock_def goto_def wakeNewLoop_def isRunning_def nth_list_update

lemma run_length: "run k s = Some s' \<Longrightarrow> length (clients s') = length (clients s)"
  by (cases "wpc s"; clarsimp simp: run_def lock_def split: if_splits prod.splits)

lemma cstep_length: "cstep t s = Some s' \<Longrightarrow> length (clients s') = length (clients s)"
  by (cases "cpc (clients s ! t)"; clarsimp simp: cstep_unfold split: if_splits)

lemma destructor_length: "destructor j s = Some s' \<Longrightarrow> length (clients s') = length (clients s)"
  by (cases "dpc s"; clarsimp simp: destructor_unfold split: if_splits)

lemma step_length: "step k a s = Some s' \<Longrightarrow> length (clients s') = length (clients s)"
  by (cases a)
     (auto simp: step_def start_def call_def destroy_def run_length cstep_length destructor_length
        split: if_splits)

lemma hold_g_run: "hold_g s \<Longrightarrow> run k s = Some s' \<Longrightarrow> hold_g s'"
  by (cases "wpc s"; clarsimp simp: run_def hold_g_def lock_def split: if_splits prod.splits)

lemma hold_c_run:
  "hold_g s \<Longrightarrow> hold_c s u \<Longrightarrow> u < length (clients s) \<Longrightarrow> run k s = Some s' \<Longrightarrow> hold_c s' u"
  by (cases "wpc s"; clarsimp simp: run_def hold_g_def hold_c_def lock_def split: if_splits prod.splits)

lemma hold_g_cstep: "hold_g s \<Longrightarrow> hold_c s t \<Longrightarrow> cstep t s = Some s' \<Longrightarrow> hold_g s'"
  by (cases "cpc (clients s ! t)"; clarsimp simp: cstep_unfold hold_g_def hold_c_def split: if_splits)

lemma hold_c_cstep:
  "hold_c s t \<Longrightarrow> hold_c s u \<Longrightarrow> u < length (clients s) \<Longrightarrow> cstep t s = Some s' \<Longrightarrow> hold_c s' u"
  by (cases "cpc (clients s ! t)"; clarsimp simp: cstep_unfold hold_c_def split: if_splits)

lemma hold_g_destructor: "hold_g s \<Longrightarrow> destructor j s = Some s' \<Longrightarrow> hold_g s'"
  by (cases "dpc s"; clarsimp simp: destructor_unfold hold_g_def split: if_splits)

lemma hold_c_destructor:
  "hold_g s \<Longrightarrow> hold_c s u \<Longrightarrow> u < length (clients s) \<Longrightarrow> destructor j s = Some s' \<Longrightarrow> hold_c s' u"
  by (cases "dpc s"; clarsimp simp: destructor_unfold hold_g_def hold_c_def split: if_splits)

lemma holder_ok_step:
  assumes "holder_ok s" and "step k a s = Some s'"
  shows "holder_ok s'"
proof -
  have g: "hold_g s" and c: "\<And>u. u < length (clients s) \<Longrightarrow> hold_c s u"
    using assms(1) by (auto simp: holder_ok_def)
  have len: "length (clients s') = length (clients s)"
    using assms(2) by (rule step_length)
  show ?thesis
  proof (cases a)
    case AStart
    then show ?thesis using assms
      by (auto simp: step_def start_def holder_ok_def hold_g_def hold_c_def split: if_splits)
  next
    case (ACall t f)
    then show ?thesis using assms
      by (auto simp: step_def call_def holder_ok_def hold_g_def hold_c_def nth_list_update
            split: if_splits)
  next
    case (AClient t)
    then have st: "cstep t s = Some s'" using assms(2) by (simp add: step_def)
    have t: "t < length (clients s)" using st by (rule cstep_valid)
    show ?thesis
      unfolding holder_ok_def
      using hold_g_cstep[OF g c[OF t] st] hold_c_cstep[OF c[OF t] c _ st] len by simp
  next
    case AWorker
    then have st: "run k s = Some s'" using assms(2) by (simp add: step_def)
    show ?thesis
      unfolding holder_ok_def
      using hold_g_run[OF g st] hold_c_run[OF g c _ st] len by simp
  next
    case ADestroy
    then show ?thesis using assms
      by (auto simp: step_def destroy_def holder_ok_def hold_g_def hold_c_def split: if_splits)
  next
    case (ADtor j)
    then have st: "destructor j s = Some s'" using assms(2) by (simp add: step_def)
    show ?thesis
      unfolding holder_ok_def
      using hold_g_destructor[OF g st] hold_c_destructor[OF g c _ st] len by simp
  qed
qed

lemma holder_ok_exec:
  assumes "exec k tr (init n d) = Some s"
  shows "holder_ok s"
  using assms holder_ok_init
proof (rule exec_invariant)
  show "\<And>a s s'. holder_ok s \<Longrightarrow> step k a s = Some s' \<Longrightarrow> holder_ok s'"
    by (rule holder_ok_step)
qed

subsection \<open>The event list\<close>

lemma log_ok_init: "log_ok (init n d)"
  by (simp add: log_ok_def pass_ok_def req_ok_def flag_ok_def init_def)

lemma log_ok_run: "log_ok s \<Longrightarrow> run k s = Some s' \<Longrightarrow> log_ok s'"
  by (cases "wpc s"; clarsimp simp: run_def log_ok_def pass_ok_def req_ok_def flag_ok_def lock_def
        split: if_splits prod.splits)

lemma log_ok_cstep: "log_ok s \<Longrightarrow> cstep t s = Some s' \<Longrightarrow> log_ok s'"
  by (cases "cpc (clients s ! t)";
      clarsimp simp: cstep_unfold log_ok_def pass_ok_def req_ok_def flag_ok_def split: if_splits;
      auto)

lemma log_ok_destructor: "log_ok s \<Longrightarrow> destructor j s = Some s' \<Longrightarrow> log_ok s'"
  by (cases "dpc s"; clarsimp simp: destructor_unfold log_ok_def pass_ok_def req_ok_def flag_ok_def split: if_splits)

lemmas log_ok_defs = log_ok_def pass_ok_def req_ok_def flag_ok_def

lemma log_ok_step:
  assumes "log_ok s" and "step k a s = Some s'"
  shows "log_ok s'"
proof (cases a)
  case AStart
  then show ?thesis using assms
    by (auto simp: step_def start_def log_ok_defs split: if_splits)
next
  case (ACall t f)
  then show ?thesis using assms
    by (auto simp: step_def call_def log_ok_defs split: if_splits)
next
  case (AClient t)
  then show ?thesis using assms by (simp add: step_def log_ok_cstep)
next
  case AWorker
  then show ?thesis using assms by (simp add: step_def log_ok_run)
next
  case ADestroy
  then show ?thesis using assms
    by (auto simp: step_def destroy_def log_ok_defs split: if_splits)
next
  case (ADtor j)
  then show ?thesis using assms by (simp add: step_def log_ok_destructor)
qed

lemma log_ok_exec:
  assumes "exec k tr (init n d) = Some s"
  shows "log_ok s"
  using assms log_ok_init
proof (rule exec_invariant)
  show "\<And>a s s'. log_ok s \<Longrightarrow> step k a s = Some s' \<Longrightarrow> log_ok s'"
    by (rule log_ok_step)
qed

lemma serial_count:
  "serial es \<Longrightarrow> count_list es Began = count_list es Ended + (if phase es = 0 then 0 else 1)"
proof (induction es)
  case Nil
  then show ?case by simp
next
  case (Cons e es)
  then show ?case by (cases e) (auto split: if_splits)
qed

section \<open>Condition-variable waits\<close>

lemma guard_c_run:
  "hold_g s \<Longrightarrow> hold_c s u \<Longrightarrow> guard_c s u \<Longrightarrow> u < length (clients s) \<Longrightarrow>
   run k s = Some s' \<Longrightarrow> guard_c s' u"
  by (cases "wpc s"; clarsimp simp: run_def hold_g_def hold_c_def guard_c_def lock_def split: if_splits prod.splits)

lemma guard_c_cstep:
  "guard_c s u \<Longrightarrow> u < length (clients s) \<Longrightarrow> cstep t s = Some s' \<Longrightarrow> guard_c s' u"
  by (cases "cpc (clients s ! t)"; clarsimp simp: cstep_unfold guard_c_def split: if_splits)

lemma guard_c_destructor:
  "hold_g s \<Longrightarrow> hold_c s u \<Longrightarrow> guard_c s u \<Longrightarrow> u < length (clients s) \<Longrightarrow>
   destructor j s = Some s' \<Longrightarrow> guard_c s' u"
  by (cases "dpc s"; clarsimp simp: destructor_unfold hold_g_def hold_c_def guard_c_def split: if_splits)

lemma guard_ok_step:
  assumes "guard_ok s" and "step k a s = Some s'"
  shows "guard_ok s'"
proof -
  have h: "holder_ok s" and g: "hold_g s"
    and c: "\<And>u. u < length (clients s) \<Longrightarrow> hold_c s u"
    and i: "\<And>u. u < length (clients s) \<Longrightarrow> guard_c s u"
    using assms(1) by (auto simp: guard_ok_def holder_ok_def)
  have h': "holder_ok s'" using h assms(2) by (rule holder_ok_step)
  have len: "length (clients s') = length (clients s)"
    using assms(2) by (rule step_length)
  have "guard_c s' u" if u: "u < length (clients s)" for u
  proof (cases a)
    case AStart
    then show ?thesis using assms(2) i[OF u]
      by (auto simp: step_def start_def guard_c_def split: if_splits)
  next
    case (ACall t f)
    then show ?thesis using assms(2) i[OF u]
      by (auto simp: step_def call_def guard_c_def nth_list_update split: if_splits)
  next
    case (AClient t)
    then show ?thesis using assms(2) i[OF u] u by (simp add: step_def guard_c_cstep)
  next
    case AWorker
    then show ?thesis using assms(2) guard_c_run[OF g c[OF u] i[OF u] u] by (simp add: step_def)
  next
    case ADestroy
    then show ?thesis using assms(2) i[OF u]
      by (auto simp: step_def destroy_def guard_c_def split: if_splits)
  next
    case (ADtor j)
    then show ?thesis using assms(2) guard_c_destructor[OF g c[OF u] i[OF u] u] by (simp add: step_def)
  qed
  then show ?thesis using h' len by (simp add: guard_ok_def)
qed

lemma guard_ok_init: "guard_ok (init n d)"
  using holder_ok_init[of n d] by (simp add: guard_ok_def guard_c_def init_def)

text \<open>
  C6, as amended. The waits of the callers are guarded: in every reachable state, a caller
  behind the loop of lines 70-71 (at line 73) holds the mutex and \<^verbatim>\<open>deviceReady\<close> is
  set; a caller behind the loop of lines 88-89 (at line 90) holds the mutex and
  \<^verbatim>\<open>testRunning\<close> is set; a caller behind the loop of lines 91-92 (at line 93) holds
  the mutex and \<^verbatim>\<open>testRunning\<close> is clear. The worker's wait of line 114 has no flag
  and no loop: it goes on at every wake-up of \<^verbatim>\<open>newLoop\<close>, and only then.
\<close>

theorem guarded_waits:
  assumes "exec k tr (init n d) = Some s" and "t < length (clients s)"
  shows "(cpc (clients s ! t) = C73 \<longrightarrow> deviceReady s \<and> mutex s = Some (Client t)) \<and>
         (cpc (clients s ! t) = C90 \<longrightarrow> testRunning s \<and> mutex s = Some (Client t)) \<and>
         (cpc (clients s ! t) = C93 \<longrightarrow> \<not> testRunning s \<and> mutex s = Some (Client t))"
proof -
  have "guard_ok s"
    using assms(1) guard_ok_init
  proof (rule exec_invariant)
    show "\<And>a s s'. guard_ok s \<Longrightarrow> step k a s = Some s' \<Longrightarrow> guard_ok s'"
      by (rule guard_ok_step)
  qed
  then have "guard_c s t" and "hold_c s t"
    using assms(2) by (auto simp: guard_ok_def holder_ok_def)
  then show ?thesis by (auto simp: guard_c_def hold_c_def)
qed

section \<open>\<^verbatim>\<open>waitPerformance\<close>\<close>

lemma since_Nil [simp]: "since t [] = []"
  by (simp add: since_def)

lemma since_Cons [simp]:
  "since t (e # es) = (if e = Call t WaitPerformance then [] else e # since t es)"
  by (simp add: since_def)

lemma ended_after_request_Nil [simp]: "\<not> ended_after_request t []"
  by (simp add: ended_after_request_def)

lemma ended_after_request_Cons [simp]:
  "ended_after_request t (e # es) =
     (if e = Ended then Req t (-1) \<in> set es else ended_after_request t es)"
  by (simp add: ended_after_request_def)

lemma inloop2_past64 [simp]: "inloop2 p \<Longrightarrow> past64 p"
  by (cases p) simp_all

lemma inloop2_inwait [simp]: "inloop2 p \<Longrightarrow> inwait p"
  by (cases p) simp_all

lemma wait_c_run:
  "wait_c s u \<Longrightarrow> u < length (clients s) \<Longrightarrow> run k s = Some s' \<Longrightarrow> wait_c s' u"
  by (cases "wpc s";
      clarsimp simp: run_def wait_c_def lock_def split: if_splits prod.splits;
      auto)

lemma wait_c_cstep:
  "wait_c s u \<Longrightarrow> u < length (clients s) \<Longrightarrow> cstep t s = Some s' \<Longrightarrow> wait_c s' u"
  by (cases "cpc (clients s ! t)";
      clarsimp simp: cstep_unfold wait_c_def split: if_splits;
      auto)

lemma ret_ok_run: "ret_ok s \<Longrightarrow> run k s = Some s' \<Longrightarrow> ret_ok s'"
  by (cases "wpc s"; clarsimp simp: run_def ret_ok_def lock_def split: if_splits prod.splits)

lemma ret_ok_cstep:
  "ret_ok s \<Longrightarrow> wait_c s t \<Longrightarrow> cstep t s = Some s' \<Longrightarrow> ret_ok s'"
  by (cases "cpc (clients s ! t)";
      clarsimp simp: cstep_unfold ret_ok_def wait_c_def split: if_splits)

lemma run_dpc: "run k s = Some s' \<Longrightarrow> dpc s' = dpc s"
  by (cases "wpc s"; clarsimp simp: run_def lock_def split: if_splits prod.splits)

lemma cstep_dpc: "cstep t s = Some s' \<Longrightarrow> dpc s' = dpc s"
  by (cases "cpc (clients s ! t)"; clarsimp simp: cstep_unfold split: if_splits)

lemma destructor_dpc: "destructor j s = Some s' \<Longrightarrow> dpc s' \<noteq> D_none"
  by (cases "dpc s"; clarsimp simp: destructor_unfold split: if_splits)

lemma wait_ok_init: "wait_ok (init n d)"
  by (simp add: wait_ok_def ret_ok_def wait_c_def init_def)

lemma wait_ok_step:
  assumes "wait_ok s" and "step k a s = Some s'"
  shows "wait_ok s'"
  unfolding wait_ok_def
proof
  assume n': "dpc s' = D_none"
  have len: "length (clients s') = length (clients s)"
    using assms(2) by (rule step_length)
  show "ret_ok s' \<and> (\<forall>u<length (clients s'). wait_c s' u)"
  proof (cases a)
    case AStart
    then show ?thesis using assms n'
      by (auto simp: step_def start_def wait_ok_def ret_ok_def wait_c_def split: if_splits)
  next
    case (ACall t f)
    then have st: "call t f s = Some s'" using assms(2) by (simp add: step_def)
    then have n: "dpc s = D_none" by (simp add: call_def split: if_splits)
    then have r: "ret_ok s" and c: "\<And>u. u < length (clients s) \<Longrightarrow> wait_c s u"
      using assms(1) by (auto simp: wait_ok_def)
    have "ret_ok s'" using st by (auto simp: call_def ret_ok_def split: if_splits)
    moreover have "wait_c s' u" if u: "u < length (clients s)" for u
      using st c[OF u] u
      by (cases f; cases "u = t"; clarsimp simp: call_def wait_c_def split: if_splits)
    ultimately show ?thesis using len by simp
  next
    case (AClient t)
    then have st: "cstep t s = Some s'" using assms(2) by (simp add: step_def)
    then have n: "dpc s = D_none" using n' by (simp add: cstep_dpc)
    then have r: "ret_ok s" and c: "\<And>u. u < length (clients s) \<Longrightarrow> wait_c s u"
      using assms(1) by (auto simp: wait_ok_def)
    have t: "t < length (clients s)" using st by (rule cstep_valid)
    show ?thesis
      using ret_ok_cstep[OF r c[OF t] st] wait_c_cstep[OF c _ st] len by simp
  next
    case AWorker
    then have st: "run k s = Some s'" using assms(2) by (simp add: step_def)
    then have n: "dpc s = D_none" using n' by (simp add: run_dpc)
    then have r: "ret_ok s" and c: "\<And>u. u < length (clients s) \<Longrightarrow> wait_c s u"
      using assms(1) by (auto simp: wait_ok_def)
    show ?thesis
      using ret_ok_run[OF r st] wait_c_run[OF c _ st] len by simp
  next
    case ADestroy
    then show ?thesis using assms(2) n' by (auto simp: step_def destroy_def split: if_splits)
  next
    case (ADtor j)
    then show ?thesis using assms(2) n' by (simp add: step_def destructor_dpc)
  qed
qed

text \<open>
  C1, as amended. As long as the destructor has not been entered, every return of
  \<^verbatim>\<open>waitPerformance\<close> is preceded, since its call, by the caller's write of \<open>-1\<close> to
  \<^verbatim>\<open>index\<close> and, later than this write, by the worker clearing \<^verbatim>\<open>testRunning\<close>
  (line 133): the call does not return before a pass has ended that was running after the
  request was made.
\<close>

theorem wait_returns_after_pass_end:
  assumes "exec k tr (init n d) = Some s" and "dpc s = D_none"
    and "log s = Ret t WaitPerformance # rest"
  shows "ended_after_request t (since t rest)"
proof -
  have "wait_ok s"
    using assms(1) wait_ok_init
  proof (rule exec_invariant)
    show "\<And>a s s'. wait_ok s \<Longrightarrow> step k a s = Some s' \<Longrightarrow> wait_ok s'"
      by (rule wait_ok_step)
  qed
  then show ?thesis using assms(2,3) by (simp add: wait_ok_def ret_ok_def)
qed

lemma idle_at_call_Cons [simp]:
  "idle_at_call t (e # es) = (if e = Call t WaitPerformance then phase es = 0 else idle_at_call t es)"
  by (simp add: idle_at_call_def before_def)

lemma began_then_ended_Nil [simp]: "\<not> began_then_ended []"
  by (simp add: began_then_ended_def)

lemma began_then_ended_Cons [simp]:
  "began_then_ended (e # es) = (if e = Ended then Began \<in> set es else began_then_ended es)"
  by (simp add: began_then_ended_def)











section \<open>Teardown\<close>

lemma tear_run: "hold_g s \<Longrightarrow> tear s \<Longrightarrow> run k s = Some s' \<Longrightarrow> tear s'"
  by (cases "wpc s"; cases "dpc s";
      clarsimp simp: run_def tear_def hold_g_def lock_def split: if_splits prod.splits)

lemma tear_cstep: "hold_g s \<Longrightarrow> hold_c s t \<Longrightarrow> tear s \<Longrightarrow> cstep t s = Some s' \<Longrightarrow> tear s'"
  by (cases "cpc (clients s ! t)"; cases "dpc s";
      clarsimp simp: cstep_unfold tear_def hold_g_def hold_c_def split: if_splits;
      (cases "wpc s"; simp))

lemma tear_destructor: "tear s \<Longrightarrow> destructor j s = Some s' \<Longrightarrow> tear s'"
  by (cases "dpc s";
      clarsimp simp: destructor_unfold tear_def split: if_splits;
      (cases "wpc s"; simp))

lemma abort_ok_init: "abort_ok (init n d)"
  by (simp add: abort_ok_def init_def)

lemma abort_ok_run: "abort_ok s \<Longrightarrow> run k s = Some s' \<Longrightarrow> abort_ok s'"
  by (cases "wpc s";
      clarsimp simp: run_def abort_ok_def lock_def split: if_splits prod.splits)

lemma abort_ok_cstep: "abort_ok s \<Longrightarrow> cstep t s = Some s' \<Longrightarrow> abort_ok s'"
  by (cases "cpc (clients s ! t)";
      clarsimp simp: cstep_unfold abort_ok_def split: if_splits; auto)

lemma abort_ok_destructor: "abort_ok s \<Longrightarrow> destructor j s = Some s' \<Longrightarrow> abort_ok s'"
  by (cases "dpc s"; clarsimp simp: destructor_unfold abort_ok_def split: if_splits)

lemma abort_ok_step:
  assumes "abort_ok s" and "step k a s = Some s'"
  shows "abort_ok s'"
proof (cases a)
  case AStart
  then show ?thesis using assms
    by (auto simp: step_def start_def abort_ok_def split: if_splits)
next
  case (ACall t f)
  then show ?thesis using assms
    by (auto simp: step_def call_def abort_ok_def split: if_splits)
next
  case (AClient t)
  then show ?thesis using assms by (simp add: step_def abort_ok_cstep)
next
  case AWorker
  then show ?thesis using assms by (simp add: step_def abort_ok_run)
next
  case ADestroy
  then show ?thesis using assms
    by (auto simp: step_def destroy_def abort_ok_def split: if_splits)
next
  case (ADtor j)
  then show ?thesis using assms by (simp add: step_def abort_ok_destructor)
qed

lemma abort_ok_exec:
  assumes "exec k tr (init n d) = Some s"
  shows "abort_ok s"
  using assms abort_ok_init
proof (rule exec_invariant)
  show "\<And>a s s'. abort_ok s \<Longrightarrow> step k a s = Some s' \<Longrightarrow> abort_ok s'"
    by (rule abort_ok_step)
qed

lemma owner_ok_init: "owner_ok (init n d)"
  by (simp add: owner_ok_def init_def)

lemma owner_ok_run: "hold_g s \<Longrightarrow> owner_ok s \<Longrightarrow> run k s = Some s' \<Longrightarrow> owner_ok s'"
  by (cases "wpc s";
      clarsimp simp: run_def owner_ok_def hold_g_def lock_def
        split: if_splits prod.splits option.splits tid.splits)

lemma owner_ok_cstep:
  "hold_g s \<Longrightarrow> hold_c s t \<Longrightarrow> owner_ok s \<Longrightarrow> cstep t s = Some s' \<Longrightarrow> owner_ok s'"
  by (cases "cpc (clients s ! t)";
      clarsimp simp: cstep_unfold owner_ok_def hold_g_def hold_c_def
        split: if_splits option.splits tid.splits)

lemma owner_ok_destructor: "hold_g s \<Longrightarrow> owner_ok s \<Longrightarrow> destructor j s = Some s' \<Longrightarrow> owner_ok s'"
  by (cases "dpc s";
      clarsimp simp: destructor_unfold owner_ok_def hold_g_def
        split: if_splits option.splits tid.splits)

lemma tear_dpc: "tear s \<Longrightarrow> dpc s \<noteq> D_none"
  by (cases "dpc s") (simp_all add: tear_def)

lemma teardown_inv_step:
  assumes "teardown_inv s" and "step k a s = Some s'"
  shows "teardown_inv s'"
proof -
  have h: "holder_ok s" and o: "owner_ok s" and l: "log_ok s" and t: "tear s"
    using assms(1) by (simp_all add: teardown_inv_def)
  have g: "hold_g s" and c: "\<And>u. u < length (clients s) \<Longrightarrow> hold_c s u"
    using h by (auto simp: holder_ok_def)
  have h': "holder_ok s'" using h assms(2) by (rule holder_ok_step)
  have l': "log_ok s'" using l assms(2) by (rule log_ok_step)
  have n: "dpc s \<noteq> D_none" using t by (rule tear_dpc)
  have "owner_ok s' \<and> tear s'"
  proof (cases a)
    case AStart
    then show ?thesis using assms(2) n by (simp add: step_def start_def)
  next
    case (ACall u f)
    then show ?thesis using assms(2) n by (simp add: step_def call_def)
  next
    case (AClient u)
    then have st: "cstep u s = Some s'" using assms(2) by (simp add: step_def)
    have u: "u < length (clients s)" using st by (rule cstep_valid)
    show ?thesis
      using owner_ok_cstep[OF g c[OF u] o st] tear_cstep[OF g c[OF u] t st] by simp
  next
    case AWorker
    then have st: "run k s = Some s'" using assms(2) by (simp add: step_def)
    show ?thesis using owner_ok_run[OF g o st] tear_run[OF g t st] by simp
  next
    case ADestroy
    then show ?thesis using assms(2) n by (simp add: step_def destroy_def)
  next
    case (ADtor j)
    then have st: "destructor j s = Some s'" using assms(2) by (simp add: step_def)
    show ?thesis using owner_ok_destructor[OF g o st] tear_destructor[OF t st] by simp
  qed
  then show ?thesis using h' l' by (simp add: teardown_inv_def)
qed

lemma cleaned_Cons: "cleaned es \<Longrightarrow> cleaned (e # es)"
  by (cases e) simp_all

lemma run_log: "run k s = Some s' \<Longrightarrow> log s' = log s \<or> (\<exists>e. log s' = e # log s)"
  by (cases "wpc s"; clarsimp simp: run_def lock_def split: if_splits prod.splits)

lemma cstep_log: "cstep t s = Some s' \<Longrightarrow> log s' = log s \<or> (\<exists>e. log s' = e # log s)"
  by (cases "cpc (clients s ! t)"; clarsimp simp: cstep_unfold split: if_splits)

lemma destructor_log: "destructor j s = Some s' \<Longrightarrow> log s' = log s \<or> (\<exists>e. log s' = e # log s)"
  by (cases "dpc s"; clarsimp simp: destructor_unfold split: if_splits)

lemma step_log: "step k a s = Some s' \<Longrightarrow> log s' = log s \<or> (\<exists>e. log s' = e # log s)"
  by (cases a)
     (auto simp: step_def start_def call_def destroy_def split: if_splits
        dest: run_log cstep_log destructor_log)

lemma cleaned_step: "step k a s = Some s' \<Longrightarrow> cleaned (log s) \<Longrightarrow> cleaned (log s')"
  using step_log[of k a s s'] by (auto intro: cleaned_Cons)

lemma cleaned_exec: "exec k tr s = Some s' \<Longrightarrow> cleaned (log s) \<Longrightarrow> cleaned (log s')"
proof (induction tr arbitrary: s)
  case Nil
  then show ?case by simp
next
  case (Cons a tr)
  from Cons.prems(1) obtain s1 where s1: "step k a s = Some s1" and r: "exec k tr s1 = Some s'"
    by (auto split: option.splits)
  from cleaned_step[OF s1 Cons.prems(2)] Cons.IH[OF r] show ?case by simp
qed

lemma rank_run:
  "hold_g s \<Longrightarrow> tear s \<Longrightarrow> run k s = Some s' \<Longrightarrow> \<not> cleaned (log s') \<Longrightarrow>
   Suc (wrank (wpc s')) \<le> wrank (wpc s)"
  by (cases "wpc s"; cases "dpc s";
      clarsimp simp: run_def tear_def hold_g_def lock_def split: if_splits prod.splits)

lemma rank_cstep:
  "hold_g s \<Longrightarrow> hold_c s t \<Longrightarrow> tear s \<Longrightarrow> cstep t s = Some s' \<Longrightarrow> \<not> cleaned (log s') \<Longrightarrow>
   wrank (wpc s') \<le> wrank (wpc s)"
  by (cases "cpc (clients s ! t)"; cases "dpc s";
      clarsimp simp: cstep_unfold tear_def hold_g_def hold_c_def split: if_splits;
      (cases "wpc s"; simp))

lemma rank_destructor:
  "tear s \<Longrightarrow> destructor j s = Some s' \<Longrightarrow> \<not> cleaned (log s') \<Longrightarrow> wrank (wpc s') \<le> wrank (wpc s)"
  by (cases "dpc s";
      clarsimp simp: destructor_unfold tear_def split: if_splits;
      (cases "wpc s"; simp))

lemma rank_step:
  assumes "teardown_inv s" and "step k a s = Some s'" and "\<not> cleaned (log s')"
  shows "count_list [a] AWorker + wrank (wpc s') \<le> wrank (wpc s)"
proof -
  have h: "holder_ok s" and t: "tear s"
    using assms(1) by (simp_all add: teardown_inv_def)
  have g: "hold_g s" and c: "\<And>u. u < length (clients s) \<Longrightarrow> hold_c s u"
    using h by (auto simp: holder_ok_def)
  have n: "dpc s \<noteq> D_none" using t by (rule tear_dpc)
  show ?thesis
  proof (cases a)
    case AStart
    then show ?thesis using assms(2) n by (simp add: step_def start_def)
  next
    case (ACall u f)
    then show ?thesis using assms(2) n by (simp add: step_def call_def)
  next
    case (AClient u)
    then have st: "cstep u s = Some s'" using assms(2) by (simp add: step_def)
    have u: "u < length (clients s)" using st by (rule cstep_valid)
    show ?thesis using rank_cstep[OF g c[OF u] t st assms(3)] AClient by simp
  next
    case AWorker
    then have st: "run k s = Some s'" using assms(2) by (simp add: step_def)
    show ?thesis using rank_run[OF g t st assms(3)] AWorker by simp
  next
    case ADestroy
    then show ?thesis using assms(2) n by (simp add: step_def destroy_def)
  next
    case (ADtor j)
    then have st: "destructor j s = Some s'" using assms(2) by (simp add: step_def)
    show ?thesis using rank_destructor[OF t st assms(3)] ADtor by simp
  qed
qed

lemma rank_exec:
  "exec k tr s = Some s' \<Longrightarrow> teardown_inv s \<Longrightarrow> \<not> cleaned (log s') \<Longrightarrow>
   count_list tr AWorker + wrank (wpc s') \<le> wrank (wpc s)"
proof (induction tr arbitrary: s)
  case Nil
  then show ?case by simp
next
  case (Cons a tr)
  from Cons.prems(1) obtain s1 where s1: "step k a s = Some s1" and r: "exec k tr s1 = Some s'"
    by (auto split: option.splits)
  have i1: "teardown_inv s1" using Cons.prems(2) s1 by (rule teardown_inv_step)
  have n1: "\<not> cleaned (log s1)" using cleaned_exec[OF r] Cons.prems(3) by blast
  have "count_list [a] AWorker + wrank (wpc s1) \<le> wrank (wpc s)"
    using Cons.prems(2) s1 n1 by (rule rank_step)
  moreover have "count_list tr AWorker + wrank (wpc s') \<le> wrank (wpc s1)"
    using r i1 Cons.prems(3) by (rule Cons.IH)
  ultimately show ?case by (auto split: if_splits)
qed

lemma destructor_enabled: "dhold (dpc s) \<Longrightarrow> \<exists>j s'. destructor j s = Some s'"
proof (cases "dpc s")
  case D41
  show ?thesis
  proof (cases "list_all (\<lambda>c. cpc c \<noteq> C71s) (clients s)")
    case True
    then show ?thesis using D41 by (simp add: destructor_def)
  next
    case False
    then obtain j where "j < length (clients s)" and "cpc (clients s ! j) = C71s"
      by (auto simp: list_all_iff in_set_conv_nth)
    then have "destructor j s = Some (goto j C71w (s\<lparr>dpc := D42\<rparr>))"
      using D41 by (simp add: destructor_def)
    then show ?thesis by blast
  qed
qed (simp_all add: destructor_def)

lemma cstep_enabled:
  "t < length (clients s) \<Longrightarrow> chold (cpc (clients s ! t)) \<Longrightarrow> \<exists>s'. cstep t s = Some s'"
  by (cases "cpc (clients s ! t)") (simp_all add: cstep_def testPerformance_def waitPerformance_def Let_def)

lemma run_enabled_hold: "whold (wpc s) \<Longrightarrow> \<exists>s'. run k s = Some s'"
  by (cases "wpc s") (simp_all add: run_def)

lemma run_enabled_free:
  "w_leaving (wpc s) \<Longrightarrow> mutex s = None \<Longrightarrow> \<exists>s'. run k s = Some s'"
  by (cases "wpc s") (simp_all add: run_def lock_def split: prod.splits)

lemma teardown_progress:
  assumes "teardown_inv s" and "\<not> cleaned (log s)"
  shows "(\<exists>s'. step k AWorker s = Some s') \<or>
         (\<exists>a s'. mutex s \<noteq> None \<and> actor a = mutex s \<and> step k a s = Some s')"
proof (cases "mutex s")
  case None
  have h: "hold_g s" and t: "tear s"
    using assms(1) by (simp_all add: teardown_inv_def holder_ok_def)
  have "w_leaving (wpc s)"
    using h t None assms(2) by (cases "dpc s") (simp_all add: hold_g_def tear_def)
  then obtain s' where "run k s = Some s'" using run_enabled_free[OF _ None] by blast
  then have "step k AWorker s = Some s'" by (simp add: step_def)
  then show ?thesis by blast
next
  case (Some u)
  have o: "owner_ok s" using assms(1) by (simp add: teardown_inv_def)
  show ?thesis
  proof (cases u)
    case Worker
    then have "whold (wpc s)" using o Some by (simp add: owner_ok_def)
    then obtain s' where "run k s = Some s'" using run_enabled_hold by blast
    then have "step k AWorker s = Some s'" by (simp add: step_def)
    then show ?thesis by blast
  next
    case (Client t)
    then have "t < length (clients s)" and "chold (cpc (clients s ! t))"
      using o Some by (simp_all add: owner_ok_def)
    then obtain s' where "cstep t s = Some s'" using cstep_enabled by blast
    then have "actor (AClient t) = mutex s \<and> step k (AClient t) s = Some s'"
      using Some Client by (simp add: step_def)
    then show ?thesis using Some by blast
  next
    case Dtor
    then have "dhold (dpc s)" using o Some by (simp add: owner_ok_def)
    then obtain j s' where "destructor j s = Some s'" using destructor_enabled by blast
    then have "actor (ADtor j) = mutex s \<and> step k (ADtor j) s = Some s'"
      using Some Dtor by (simp add: step_def)
    then show ?thesis using Some by blast
  qed
qed

lemma owner_ok_start: "owner_ok s \<Longrightarrow> start s = Some s' \<Longrightarrow> owner_ok s'"
  by (clarsimp simp: start_def owner_ok_def split: if_splits option.splits tid.splits)

lemma owner_ok_call: "owner_ok s \<Longrightarrow> call t f s = Some s' \<Longrightarrow> owner_ok s'"
  by (clarsimp simp: call_def owner_ok_def nth_list_update split: if_splits option.splits tid.splits)

lemma owner_ok_destroy: "owner_ok s \<Longrightarrow> destroy s = Some s' \<Longrightarrow> owner_ok s'"
  by (clarsimp simp: destroy_def owner_ok_def split: if_splits option.splits tid.splits)

lemma owner_ok_step:
  assumes "holder_ok s \<and> owner_ok s" and "step k a s = Some s'"
  shows "holder_ok s' \<and> owner_ok s'"
proof -
  have g: "hold_g s" and c: "\<And>u. u < length (clients s) \<Longrightarrow> hold_c s u" and o: "owner_ok s"
    using assms(1) by (auto simp: holder_ok_def)
  have "owner_ok s'"
  proof (cases a)
    case AStart
    then show ?thesis using owner_ok_start[OF o] assms(2) by (simp add: step_def)
  next
    case (ACall u f)
    then show ?thesis using owner_ok_call[OF o] assms(2) by (simp add: step_def)
  next
    case (AClient u)
    then have cs: "cstep u s = Some s'" using assms(2) by (simp add: step_def)
    have u: "u < length (clients s)" using cs by (rule cstep_valid)
    show ?thesis using g c[OF u] o cs by (rule owner_ok_cstep)
  next
    case AWorker
    then have ws: "run k s = Some s'" using assms(2) by (simp add: step_def)
    show ?thesis using g o ws by (rule owner_ok_run)
  next
    case ADestroy
    then show ?thesis using owner_ok_destroy[OF o] assms(2) by (simp add: step_def)
  next
    case (ADtor j)
    then have ds: "destructor j s = Some s'" using assms(2) by (simp add: step_def)
    show ?thesis using g o ds by (rule owner_ok_destructor)
  qed
  moreover have "holder_ok s'" using assms holder_ok_step by blast
  ultimately show ?thesis by simp
qed

lemma owner_ok_exec:
  assumes "exec k tr (init n d) = Some s"
  shows "owner_ok s"
proof -
  have "holder_ok s \<and> owner_ok s"
    using assms
  proof (rule exec_invariant)
    show "holder_ok (init n d) \<and> owner_ok (init n d)"
      by (simp add: holder_ok_init owner_ok_init)
  next
    show "\<And>a s s'. holder_ok s \<and> owner_ok s \<Longrightarrow> step k a s = Some s' \<Longrightarrow>
            holder_ok s' \<and> owner_ok s'"
      by (rule owner_ok_step)
  qed
  then show ?thesis by simp
qed

lemma w_after_phase: "w_after p \<Longrightarrow> wphase p = 0"
  by (cases p) simp_all

text \<open>
  What the destructor achieves. Let the destructor take the mutex (line 39) while the
  worker sleeps in the wait of line 114 or is inside \<^verbatim>\<open>updateInfo\<close> (line 130). Then,
  whatever the schedule from there: the destructor returns only after \<^verbatim>\<open>cleanDevice\<close>
  has been called and with no pass open; as long as \<^verbatim>\<open>cleanDevice\<close> has not been
  called, the steps the worker has made since, plus the bound \<open>wrank\<close> of where it
  stands, are at most 12, so that it reaches the call within 12 steps of its own; and it
  is never stuck, since either the worker can make its next step or the thread holding
  the mutex can make its own.
\<close>

theorem teardown_ends_worker:
  assumes "exec k tr0 (init n d) = Some s1" and "dpc s1 = D40"
    and "wpc s1 = W114s \<or> wpc s1 = W130"
    and "exec k tr s1 = Some s"
  shows "(dpc s = D_done \<longrightarrow> cleaned (log s) \<and> phase (log s) = 0) \<and>
         (\<not> cleaned (log s) \<longrightarrow>
            count_list tr AWorker + wrank (wpc s) \<le> 12 \<and>
            ((\<exists>s'. step k AWorker s = Some s') \<or>
             (\<exists>a s'. mutex s \<noteq> None \<and> actor a = mutex s \<and> step k a s = Some s')))"
proof -
  have a1: "abort_ok s1" using assms(1) by (rule abort_ok_exec)
  have nc: "\<not> cleaned (log s1)" using a1 assms(2) by (auto simp: abort_ok_def)
  have "tear s1" using assms(2,3) nc by (auto simp: tear_def)
  then have i1: "teardown_inv s1"
    using holder_ok_exec[OF assms(1)] owner_ok_exec[OF assms(1)] log_ok_exec[OF assms(1)]
    by (simp add: teardown_inv_def)
  have i: "teardown_inv s"
    using assms(4) i1
  proof (rule exec_invariant)
    show "\<And>a s s'. teardown_inv s \<Longrightarrow> step k a s = Some s' \<Longrightarrow> teardown_inv s'"
      by (rule teardown_inv_step)
  qed
  have fin: "cleaned (log s) \<and> phase (log s) = 0" if "dpc s = D_done"
    using i that by (auto simp: teardown_inv_def tear_def log_ok_defs w_after_phase)
  have r1: "wrank (wpc s1) \<le> 12" using assms(3) by auto
  have rank: "count_list tr AWorker + wrank (wpc s) \<le> 12" if "\<not> cleaned (log s)"
    using rank_exec[OF assms(4) i1 that] r1 by simp
  show ?thesis using fin rank teardown_progress[OF i] by blast
qed

section \<open>Failure of the device operations\<close>

lemma control_run:
  "control s1 = control s2 \<Longrightarrow> run k1 s1 = Some t1 \<Longrightarrow>
   \<exists>t2. run k2 s2 = Some t2 \<and> control t1 = control t2"
  by (cases "wpc s1";
      clarsimp simp: run_def control_def lock_def split: if_splits prod.splits)

lemma control_cstep:
  "control s1 = control s2 \<Longrightarrow> cstep t s1 = Some t1 \<Longrightarrow>
   \<exists>t2. cstep t s2 = Some t2 \<and> control t1 = control t2"
  by (cases "cpc (clients s1 ! t)";
      clarsimp simp: cstep_def testPerformance_def waitPerformance_def Let_def lock_def goto_def wakeNewLoop_def isRunning_def control_def
        split: if_splits)

lemma control_destructor:
  "control s1 = control s2 \<Longrightarrow> destructor j s1 = Some t1 \<Longrightarrow>
   \<exists>t2. destructor j s2 = Some t2 \<and> control t1 = control t2"
  by (cases "dpc s1";
      clarsimp simp: destructor_def lock_def goto_def wakeNewLoop_def isRunning_def control_def
        split: if_splits)

lemma control_step:
  assumes "control s1 = control s2" and "step k1 a s1 = Some t1"
  shows "\<exists>t2. step k2 a s2 = Some t2 \<and> control t1 = control t2"
proof (cases a)
  case AStart
  then show ?thesis using assms
    by (clarsimp simp: step_def start_def control_def split: if_splits)
next
  case (ACall t f)
  then show ?thesis using assms
    by (clarsimp simp: step_def call_def control_def split: if_splits)
next
  case (AClient t)
  then show ?thesis using assms control_cstep[of s1 s2 t t1] by (simp add: step_def)
next
  case AWorker
  then show ?thesis using assms control_run[of s1 s2 k1 t1 k2] by (simp add: step_def)
next
  case ADestroy
  then show ?thesis using assms
    by (clarsimp simp: step_def destroy_def control_def split: if_splits)
next
  case (ADtor j)
  then show ?thesis using assms control_destructor[of s1 s2 j t1] by (simp add: step_def)
qed

lemma control_exec:
  "exec k1 tr s1 = Some t1 \<Longrightarrow> control s1 = control s2 \<Longrightarrow>
   \<exists>t2. exec k2 tr s2 = Some t2 \<and> control t1 = control t2"
proof (induction tr arbitrary: s1 s2)
  case Nil
  then show ?case by simp
next
  case (Cons a tr)
  from Cons.prems(1) obtain u1 where u1: "step k1 a s1 = Some u1" and r: "exec k1 tr u1 = Some t1"
    by (auto split: option.splits)
  from control_step[OF Cons.prems(2) u1] obtain u2
    where u2: "step k2 a s2 = Some u2" and c: "control u1 = control u2" by blast
  from Cons.IH[OF r c] obtain t2 where "exec k2 tr u2 = Some t2" and "control t1 = control t2"
    by blast
  then show ?case using u2 by auto
qed

lemma record_ok_run: "record_ok k d s \<Longrightarrow> run k s = Some s' \<Longrightarrow> record_ok k d s'"
  by (cases "wpc s";
      clarsimp simp: run_def record_ok_def lock_def split: if_splits prod.splits)

lemma record_ok_cstep: "record_ok k d s \<Longrightarrow> cstep t s = Some s' \<Longrightarrow> record_ok k d s'"
  by (cases "cpc (clients s ! t)";
      clarsimp simp: cstep_unfold record_ok_def split: if_splits)

lemma record_ok_destructor: "record_ok k d s \<Longrightarrow> destructor j s = Some s' \<Longrightarrow> record_ok k d s'"
  by (cases "dpc s"; clarsimp simp: destructor_unfold record_ok_def split: if_splits)

lemma record_ok_step:
  assumes "record_ok k d s" and "step k a s = Some s'"
  shows "record_ok k d s'"
proof (cases a)
  case AStart
  then show ?thesis using assms
    by (clarsimp simp: step_def start_def record_ok_def split: if_splits)
next
  case (ACall t f)
  then show ?thesis using assms
    by (clarsimp simp: step_def call_def record_ok_def split: if_splits)
next
  case (AClient t)
  then show ?thesis using assms by (simp add: step_def record_ok_cstep)
next
  case AWorker
  then show ?thesis using assms by (simp add: step_def record_ok_run)
next
  case ADestroy
  then show ?thesis using assms
    by (clarsimp simp: step_def destroy_def record_ok_def split: if_splits)
next
  case (ADtor j)
  then show ?thesis using assms by (simp add: step_def record_ok_destructor)
qed

text \<open>
  C9. The worker does not look at the return codes. Whatever the device operations
  return and do to the record (\<open>k'\<close> and \<open>d'\<close> instead of \<open>k\<close> and \<open>d\<close>), the same
  schedule runs and leads to the same flags, program counters and events, return codes
  apart: there is no retry and no error path. And the record is what the device
  operations called so far have made of the initial one, in order: the worker never
  writes or resets it.
\<close>

theorem return_codes_ignored:
  assumes "exec k tr (init n d) = Some s"
  shows "(\<exists>s'. exec k' tr (init n d') = Some s' \<and> control s' = control s) \<and>
         dev s = foldr (redo k) (log s) d"
proof -
  have "control (init n d) = control (init n d')"
    by (simp add: control_def init_def)
  from control_exec[OF assms this, of k']
  have a: "\<exists>s'. exec k' tr (init n d') = Some s' \<and> control s' = control s" by auto
  have "record_ok k d s"
    using assms
  proof (rule exec_invariant)
    show "record_ok k d (init n d)" by (simp add: record_ok_def init_def)
  next
    show "\<And>a s s'. record_ok k d s \<Longrightarrow> step k a s = Some s' \<Longrightarrow> record_ok k d s'"
      by (rule record_ok_step)
  qed
  then show ?thesis using a by (simp add: record_ok_def)
qed

section \<open>\<^verbatim>\<open>testPerformance\<close>\<close>

lemma ready_g_run: "ready_g s \<Longrightarrow> run k s = Some s' \<Longrightarrow> ready_g s'"
  by (cases "wpc s"; clarsimp simp: run_def ready_g_def lock_def split: if_splits prod.splits)

lemma ready_g_cstep: "ready_g s \<Longrightarrow> cstep t s = Some s' \<Longrightarrow> ready_g s'"
  by (cases "cpc (clients s ! t)"; clarsimp simp: cstep_unfold ready_g_def split: if_splits;
      (cases "wpc s"; simp))

lemma ready_c_run:
  "hold_g s \<Longrightarrow> hold_c s u \<Longrightarrow> ready_g s \<Longrightarrow> ready_c s u \<Longrightarrow> u < length (clients s) \<Longrightarrow>
   run k s = Some s' \<Longrightarrow> ready_c s' u"
  by (cases "wpc s";
      clarsimp simp: run_def ready_g_def ready_c_def hold_g_def hold_c_def lock_def
        split: if_splits prod.splits)

lemma ready_c_cstep:
  "hold_g s \<Longrightarrow> hold_c s t \<Longrightarrow> hold_c s u \<Longrightarrow> ready_g s \<Longrightarrow> ready_c s u \<Longrightarrow>
   u < length (clients s) \<Longrightarrow> cstep t s = Some s' \<Longrightarrow> ready_c s' u"
  by (cases "cpc (clients s ! t)";
      clarsimp simp: cstep_unfold ready_g_def ready_c_def hold_g_def hold_c_def split: if_splits;
      (cases "wpc s"; simp))

lemma ready_c_destructor:
  "ready_c s u \<Longrightarrow> u < length (clients s) \<Longrightarrow> destructor j s = Some s' \<Longrightarrow> ready_c s' u"
  by (cases "dpc s"; clarsimp simp: destructor_unfold ready_c_def split: if_splits)

lemma ready_g_destructor: "destructor j s = Some s' \<Longrightarrow> ready_g s'"
  using destructor_dpc[of j s s'] by (simp add: ready_g_def)

lemma ready_ok_init: "ready_ok (init n d)"
  using holder_ok_init[of n d] by (simp add: ready_ok_def ready_g_def ready_c_def init_def)

lemma ready_ok_step:
  assumes "ready_ok s" and "step k a s = Some s'"
  shows "ready_ok s'"
proof -
  have h: "holder_ok s" and g: "hold_g s" and r: "ready_g s"
    and c: "\<And>u. u < length (clients s) \<Longrightarrow> hold_c s u"
    and i: "\<And>u. u < length (clients s) \<Longrightarrow> ready_c s u"
    using assms(1) by (auto simp: ready_ok_def holder_ok_def)
  have h': "holder_ok s'" using h assms(2) by (rule holder_ok_step)
  have len: "length (clients s') = length (clients s)"
    using assms(2) by (rule step_length)
  have r': "ready_g s'"
  proof (cases a)
    case AStart
    then show ?thesis using assms(2) r
      by (auto simp: step_def start_def ready_g_def split: if_splits)
  next
    case (ACall t f)
    then show ?thesis using assms(2) r
      by (auto simp: step_def call_def ready_g_def split: if_splits)
  next
    case (AClient t)
    then show ?thesis using assms(2) r by (simp add: step_def ready_g_cstep)
  next
    case AWorker
    then show ?thesis using assms(2) r by (simp add: step_def ready_g_run)
  next
    case ADestroy
    then show ?thesis using assms(2)
      by (auto simp: step_def destroy_def ready_g_def split: if_splits)
  next
    case (ADtor j)
    then show ?thesis using assms(2) by (simp add: step_def ready_g_destructor)
  qed
  have "ready_c s' u" if u: "u < length (clients s)" for u
  proof (cases a)
    case AStart
    then show ?thesis using assms(2) i[OF u]
      by (auto simp: step_def start_def ready_c_def split: if_splits)
  next
    case (ACall t f)
    then show ?thesis using assms(2) i[OF u]
      by (auto simp: step_def call_def ready_c_def nth_list_update split: if_splits)
  next
    case (AClient t)
    then have st: "cstep t s = Some s'" using assms(2) by (simp add: step_def)
    have t: "t < length (clients s)" using st by (rule cstep_valid)
    show ?thesis using g c[OF t] c[OF u] r i[OF u] u st by (rule ready_c_cstep)
  next
    case AWorker
    then have st: "run k s = Some s'" using assms(2) by (simp add: step_def)
    show ?thesis using g c[OF u] r i[OF u] u st by (rule ready_c_run)
  next
    case ADestroy
    then show ?thesis using assms(2) i[OF u]
      by (auto simp: step_def destroy_def ready_c_def split: if_splits)
  next
    case (ADtor j)
    then have st: "destructor j s = Some s'" using assms(2) by (simp add: step_def)
    show ?thesis using i[OF u] u st by (rule ready_c_destructor)
  qed
  then show ?thesis using h' r' len by (simp add: ready_ok_def)
qed

lemma ready_ok_exec:
  assumes "exec k tr (init n d) = Some s"
  shows "ready_ok s"
  using assms ready_ok_init
proof (rule exec_invariant)
  show "\<And>a s s'. ready_ok s \<Longrightarrow> step k a s = Some s' \<Longrightarrow> ready_ok s'"
    by (rule ready_ok_step)
qed

lemma step_dpc: "step k a s = Some s' \<Longrightarrow> dpc s' = D_none \<Longrightarrow> dpc s = D_none"
  by (cases a)
     (auto simp: step_def start_def call_def destroy_def run_dpc cstep_dpc destructor_dpc
        split: if_splits)

lemma exec_dpc: "exec k tr s = Some s' \<Longrightarrow> dpc s' = D_none \<Longrightarrow> dpc s = D_none"
proof (induction tr arbitrary: s)
  case Nil
  then show ?case by simp
next
  case (Cons a tr)
  from Cons.prems(1) obtain s1 where s1: "step k a s = Some s1" and r: "exec k tr s1 = Some s'"
    by (auto split: option.splits)
  from Cons.IH[OF r Cons.prems(2)] step_dpc[OF s1] show ?case by simp
qed

lemma count_step: "step k a s = Some s' \<Longrightarrow> count_list (log s) e \<le> count_list (log s') e"
  using step_log[of k a s s'] by auto

lemma count_exec: "exec k tr s = Some s' \<Longrightarrow> count_list (log s) e \<le> count_list (log s') e"
proof (induction tr arbitrary: s)
  case Nil
  then show ?case by simp
next
  case (Cons a tr)
  from Cons.prems(1) obtain s1 where s1: "step k a s = Some s1" and r: "exec k tr s1 = Some s'"
    by (auto split: option.splits)
  from count_step[OF s1, of e] Cons.IH[OF r] show ?case by simp
qed

lemma call_c_run:
  "call_c r0 q0 t i s \<Longrightarrow> t < length (clients s) \<Longrightarrow> run k s = Some s' \<Longrightarrow> call_c r0 q0 t i s'"
  by (cases "wpc s";
      clarsimp simp: run_def call_c_def incall_def lock_def split: if_splits prod.splits)

lemma call_c_cstep:
  "call_c r0 q0 t i s \<Longrightarrow> t < length (clients s) \<Longrightarrow> cstep u s = Some s' \<Longrightarrow> call_c r0 q0 t i s'"
  by (cases "cpc (clients s ! u)";
      clarsimp simp: cstep_unfold call_c_def incall_def split: if_splits;
      auto)

lemma call_c_destructor:
  "call_c r0 q0 t i s \<Longrightarrow> t < length (clients s) \<Longrightarrow> destructor j s = Some s' \<Longrightarrow>
   call_c r0 q0 t i s'"
  by (cases "dpc s";
      clarsimp simp: destructor_unfold call_c_def incall_def split: if_splits)

lemma call_c_step:
  assumes "call_c r0 q0 t i s" and "t < length (clients s)" and "step k a s = Some s'"
  shows "call_c r0 q0 t i s'"
proof (cases a)
  case AStart
  then show ?thesis using assms
    by (auto simp: step_def start_def call_c_def incall_def split: if_splits)
next
  case (ACall u f)
  then show ?thesis using assms
    by (cases "u = t"; clarsimp simp: step_def call_def call_c_def incall_def split: if_splits)
next
  case (AClient u)
  then show ?thesis using assms by (simp add: step_def call_c_cstep)
next
  case AWorker
  then show ?thesis using assms by (simp add: step_def call_c_run)
next
  case ADestroy
  then show ?thesis using assms
    by (auto simp: step_def destroy_def call_c_def incall_def split: if_splits)
next
  case (ADtor j)
  then show ?thesis using assms by (simp add: step_def call_c_destructor)
qed

lemma crank_run:
  "ready_g s \<Longrightarrow> dpc s = D_none \<Longrightarrow> t < length (clients s) \<Longrightarrow> run k s = Some s' \<Longrightarrow>
   crank (deviceReady s') (cpc (clients s' ! t)) \<le> crank (deviceReady s) (cpc (clients s ! t))"
  by (cases "wpc s"; cases "cpc (clients s ! t)";
      clarsimp simp: run_def ready_g_def lock_def split: if_splits prod.splits)

lemma crank_cstep:
  "ready_c s t \<Longrightarrow> dpc s = D_none \<Longrightarrow> cstep u s = Some s' \<Longrightarrow> t < length (clients s) \<Longrightarrow>
   intest (cpc (clients s ! t)) \<Longrightarrow>
   (if u = t then 1 else 0) + crank (deviceReady s') (cpc (clients s' ! t))
     \<le> crank (deviceReady s) (cpc (clients s ! t))"
  by (cases "cpc (clients s ! u)"; cases "u = t";
      clarsimp simp: cstep_unfold ready_c_def split: if_splits)

lemma crank_step:
  assumes "ready_ok s" and "step k a s = Some s'" and "dpc s' = D_none"
    and "t < length (clients s)" and "intest (cpc (clients s ! t))"
  shows "count_list [a] (AClient t) + crank (deviceReady s') (cpc (clients s' ! t))
           \<le> crank (deviceReady s) (cpc (clients s ! t))"
proof -
  have n: "dpc s = D_none" using assms(2,3) by (rule step_dpc)
  have r: "ready_g s" and c: "ready_c s t"
    using assms(1,4) by (auto simp: ready_ok_def)
  show ?thesis
  proof (cases a)
    case AStart
    then show ?thesis using assms(2) by (auto simp: step_def start_def split: if_splits)
  next
    case (ACall u f)
    then show ?thesis using assms(2,5)
      by (cases "u = t"; clarsimp simp: step_def call_def split: if_splits)
  next
    case (AClient u)
    then have st: "cstep u s = Some s'" using assms(2) by (simp add: step_def)
    show ?thesis using crank_cstep[OF c n st assms(4,5)] AClient by (auto split: if_splits)
  next
    case AWorker
    then have st: "run k s = Some s'" using assms(2) by (simp add: step_def)
    show ?thesis using crank_run[OF r n assms(4) st] AWorker by simp
  next
    case ADestroy
    then show ?thesis using assms(2,3) by (auto simp: step_def destroy_def split: if_splits)
  next
    case (ADtor j)
    then show ?thesis using assms(2,3) destructor_dpc[of j s s'] by (simp add: step_def)
  qed
qed

lemma crank_exec:
  "exec k tr s = Some s' \<Longrightarrow> ready_ok s \<Longrightarrow> dpc s' = D_none \<Longrightarrow> t < length (clients s) \<Longrightarrow>
   call_c r0 q0 t i s \<Longrightarrow> count_list (log s') (Ret t (TestPerformance i)) = r0 \<Longrightarrow>
   count_list tr (AClient t) + crank (deviceReady s') (cpc (clients s' ! t))
     \<le> crank (deviceReady s) (cpc (clients s ! t))"
proof (induction tr arbitrary: s)
  case Nil
  then show ?case by simp
next
  case (Cons a tr)
  from Cons.prems(1) obtain s1 where s1: "step k a s = Some s1" and r: "exec k tr s1 = Some s'"
    by (auto split: option.splits)
  have n1: "dpc s1 = D_none" using r Cons.prems(3) by (rule exec_dpc)
  have i1: "ready_ok s1" using Cons.prems(2) s1 by (rule ready_ok_step)
  have c1: "call_c r0 q0 t i s1" using Cons.prems(5,4) s1 by (rule call_c_step)
  have len: "t < length (clients s1)" using step_length[OF s1] Cons.prems(4) by simp
  have "count_list (log s) (Ret t (TestPerformance i)) \<le> r0"
    using count_exec[OF Cons.prems(1), of "Ret t (TestPerformance i)"] Cons.prems(6) by simp
  then have "incall i s t" using Cons.prems(5) by (simp add: call_c_def)
  then have it: "intest (cpc (clients s ! t))" by (simp add: incall_def)
  have a: "count_list [a] (AClient t) + crank (deviceReady s1) (cpc (clients s1 ! t))
             \<le> crank (deviceReady s) (cpc (clients s ! t))"
    using Cons.prems(2) s1 n1 Cons.prems(4) it by (rule crank_step)
  have b: "count_list tr (AClient t) + crank (deviceReady s') (cpc (clients s' ! t))
             \<le> crank (deviceReady s1) (cpc (clients s1 ! t))"
    using r i1 Cons.prems(3) len c1 Cons.prems(6) by (rule Cons.IH)
  show ?case using a b by (auto split: if_splits)
qed

lemma owner_enabled:
  assumes "owner_ok s" and "mutex s \<noteq> None"
  shows "\<exists>a s'. actor a = mutex s \<and> step k a s = Some s'"
proof -
  from assms(2) obtain u where Some: "mutex s = Some u" by auto
  show ?thesis
  proof (cases u)
    case Worker
    then have "whold (wpc s)" using assms(1) Some by (simp add: owner_ok_def)
    then obtain s' where "run k s = Some s'" using run_enabled_hold by blast
    then have "actor AWorker = mutex s \<and> step k AWorker s = Some s'"
      using Some Worker by (simp add: step_def)
    then show ?thesis by blast
  next
    case (Client t)
    then have "t < length (clients s)" and "chold (cpc (clients s ! t))"
      using assms(1) Some by (simp_all add: owner_ok_def)
    then obtain s' where "cstep t s = Some s'" using cstep_enabled by blast
    then have "actor (AClient t) = mutex s \<and> step k (AClient t) s = Some s'"
      using Some Client by (simp add: step_def)
    then show ?thesis by blast
  next
    case Dtor
    then have "dhold (dpc s)" using assms(1) Some by (simp add: owner_ok_def)
    then obtain j s' where "destructor j s = Some s'" using destructor_enabled by blast
    then have "actor (ADtor j) = mutex s \<and> step k (ADtor j) s = Some s'"
      using Some Dtor by (simp add: step_def)
    then show ?thesis by blast
  qed
qed

lemma cstep_enabled_free:
  "t < length (clients s) \<Longrightarrow> intest (cpc (clients s ! t)) \<Longrightarrow> cpc (clients s ! t) \<noteq> C71s \<Longrightarrow>
   mutex s = None \<Longrightarrow> \<exists>s'. cstep t s = Some s'"
  by (cases "cpc (clients s ! t)")
     (simp_all add: cstep_def testPerformance_def waitPerformance_def Let_def lock_def goto_def)

lemma run_enabled_prep:
  "0 < wprep (wpc s) \<Longrightarrow> mutex s = None \<Longrightarrow> \<exists>s'. run k s = Some s'"
  by (cases "wpc s") (simp_all add: run_def lock_def split: prod.splits)

lemma call_progress:
  assumes "holder_ok s" and "owner_ok s" and "ready_c s t" and "dpc s = D_none"
    and "t < length (clients s)" and "intest (cpc (clients s ! t))"
  shows "(\<exists>s'. cstep t s = Some s') \<or>
         (\<exists>a s'. mutex s \<noteq> None \<and> actor a = mutex s \<and> step k a s = Some s') \<or>
         (cpc (clients s ! t) = C71s \<and> (\<exists>s'. run k s = Some s'))"
proof (cases "mutex s")
  case (Some u)
  then show ?thesis using owner_enabled[OF assms(2), of k] by auto
next
  case None
  show ?thesis
  proof (cases "cpc (clients s ! t) = C71s")
    case True
    then have "0 < wprep (wpc s)" using assms(3,4) by (simp add: ready_c_def)
    then show ?thesis using run_enabled_prep[OF _ None] True by blast
  next
    case False
    then show ?thesis using cstep_enabled_free[OF assms(5,6) False None] by blast
  qed
qed

lemma wake_run:
  "0 < wprep (wpc s) \<Longrightarrow> t < length (clients s) \<Longrightarrow> cpc (clients s ! t) = C71s \<Longrightarrow>
   run k s = Some s' \<Longrightarrow>
   wprep (wpc s') < wprep (wpc s) \<and> (wprep (wpc s') = 0 \<longrightarrow> cpc (clients s' ! t) = C71w)"
  by (cases "wpc s"; clarsimp simp: run_def lock_def split: if_splits prod.splits)

lemma sect_run:
  "whold (wpc s) \<Longrightarrow> mutex s = Some Worker \<Longrightarrow> run k s = Some s' \<Longrightarrow> sect s' < sect s"
  by (cases "wpc s"; clarsimp simp: run_def sect_def lock_def split: if_splits prod.splits)

lemma sect_cstep:
  "chold (cpc (clients s ! u)) \<Longrightarrow> mutex s = Some (Client u) \<Longrightarrow> u < length (clients s) \<Longrightarrow>
   cstep u s = Some s' \<Longrightarrow> sect s' < sect s"
  by (cases "cpc (clients s ! u)"; clarsimp simp: cstep_unfold sect_def split: if_splits)

lemma sect_destructor:
  "dhold (dpc s) \<Longrightarrow> mutex s = Some Dtor \<Longrightarrow> destructor j s = Some s' \<Longrightarrow> sect s' < sect s"
  by (cases "dpc s"; clarsimp simp: destructor_unfold sect_def split: if_splits)

lemma sect_step:
  assumes "owner_ok s" and "mutex s \<noteq> None" and "actor a = mutex s" and "step k a s = Some s'"
  shows "sect s' < sect s"
proof (cases a)
  case AStart
  then show ?thesis using assms(2,3) by simp
next
  case (ACall u f)
  then show ?thesis using assms(2,3) by simp
next
  case (AClient u)
  then have m: "mutex s = Some (Client u)" using assms(3) by simp
  then have "u < length (clients s)" and "chold (cpc (clients s ! u))"
    using assms(1) by (simp_all add: owner_ok_def)
  then show ?thesis using sect_cstep[OF _ m] assms(4) AClient by (simp add: step_def)
next
  case AWorker
  then have m: "mutex s = Some Worker" using assms(3) by simp
  then have "whold (wpc s)" using assms(1) by (simp add: owner_ok_def)
  then show ?thesis using sect_run[OF _ m] assms(4) AWorker by (simp add: step_def)
next
  case ADestroy
  then show ?thesis using assms(2,3) by simp
next
  case (ADtor j)
  then have m: "mutex s = Some Dtor" using assms(3) by simp
  then have "dhold (dpc s)" using assms(1) by (simp add: owner_ok_def)
  then show ?thesis using sect_destructor[OF _ m] assms(4) ADtor by (simp add: step_def)
qed

lemma whold_130: "owner_ok s \<Longrightarrow> wpc s = W130 \<Longrightarrow> mutex s \<noteq> Some Worker"
  by (auto simp: owner_ok_def)

text \<open>
  C7, as amended. Let caller \<open>t\<close> call \<^verbatim>\<open>testPerformance(i)\<close> in any reachable state, and
  let any schedule follow in which the destructor is not entered. When the call has
  returned, and already when the caller is behind line 64, the caller has written \<open>i\<close>
  to \<^verbatim>\<open>index\<close> since the call. As long as the call has not returned: the caller is
  inside lines 63-74; the steps it has made since the call, plus the bound \<open>crank\<close> of
  where it stands, are at most 9; at line 74, behind its wake-up of line 73, the worker
  is not asleep in line 114; the caller is asleep (line 71) only while the worker is in
  lines 105-109, where every step of the worker is a step towards the \<^verbatim>\<open>wakeAll\<close> of
  line 109, which wakes the caller; the worker does not hold the mutex while it is
  inside \<^verbatim>\<open>updateInfo\<close>; every step of the thread that holds the mutex is a step
  towards giving it up; and the call is never stuck: the caller can make a step, or
  the thread that holds the mutex can make one, or the caller is asleep and the worker
  can make one. So the call waits for the mutex and for the preparation of the device,
  and never for a pass.
\<close>

theorem testPerformance_waits_for_preparation_only:
  assumes "exec k tr0 (init n d) = Some s0"
    and "call t (TestPerformance i) s0 = Some s1"
    and "exec k tr s1 = Some s" and "dpc s = D_none"
  shows "(returned t i s1 s \<or> past64 (cpc (clients s ! t)) \<longrightarrow> requested t i s1 s) \<and>
         (returned t i s1 s \<or>
            intest (cpc (clients s ! t)) \<and>
            count_list tr (AClient t) + crank (deviceReady s) (cpc (clients s ! t)) \<le> 9 \<and>
            (cpc (clients s ! t) = C74 \<longrightarrow> wpc s \<noteq> W114s) \<and>
            (cpc (clients s ! t) = C71s \<longrightarrow>
               0 < wprep (wpc s) \<and>
               (\<forall>s'. run k s = Some s' \<longrightarrow>
                  wprep (wpc s') < wprep (wpc s) \<and>
                  (wprep (wpc s') = 0 \<longrightarrow> cpc (clients s' ! t) = C71w))) \<and>
            (wpc s = W130 \<longrightarrow> mutex s \<noteq> Some Worker) \<and>
            (\<forall>a s'. mutex s \<noteq> None \<and> actor a = mutex s \<and> step k a s = Some s' \<longrightarrow>
               sect s' < sect s) \<and>
            ((\<exists>s'. cstep t s = Some s') \<or>
             (\<exists>a s'. mutex s \<noteq> None \<and> actor a = mutex s \<and> step k a s = Some s') \<or>
             (cpc (clients s ! t) = C71s \<and> (\<exists>s'. run k s = Some s'))))"
proof -
  let ?R = "Ret t (TestPerformance i)"
  let ?Q = "Req t i"
  have st: "step k (ACall t (TestPerformance i)) s0 = Some s1"
    using assms(2) by (simp add: step_def)
  have e1: "exec k (tr0 @ [ACall t (TestPerformance i)]) (init n d) = Some s1"
    using assms(1) st by (simp add: exec_append)
  have e: "exec k ((tr0 @ [ACall t (TestPerformance i)]) @ tr) (init n d) = Some s"
    using e1 assms(3) by (simp add: exec_append del: append_assoc)
  have r1: "ready_ok s1" using e1 by (rule ready_ok_exec)
  have r: "ready_ok s" using e by (rule ready_ok_exec)
  have o: "owner_ok s" using e by (rule owner_ok_exec)
  have t1: "t < length (clients s1)" using assms(2) by (auto simp: call_def split: if_splits)
  have c1: "call_c (count_list (log s1) ?R) (count_list (log s1) ?Q) t i s1"
    using assms(2) by (auto simp: call_def call_c_def incall_def split: if_splits)
  have p1: "cpc (clients s1 ! t) = C63"
    using assms(2) by (auto simp: call_def split: if_splits)
  have "call_c (count_list (log s1) ?R) (count_list (log s1) ?Q) t i s \<and> t < length (clients s)"
    using assms(3)
  proof (rule exec_invariant)
    show "call_c (count_list (log s1) ?R) (count_list (log s1) ?Q) t i s1 \<and> t < length (clients s1)"
      using c1 t1 by simp
  next
    fix a u u'
    assume "call_c (count_list (log s1) ?R) (count_list (log s1) ?Q) t i u \<and> t < length (clients u)"
      and "step k a u = Some u'"
    then show "call_c (count_list (log s1) ?R) (count_list (log s1) ?Q) t i u' \<and> t < length (clients u')"
      using call_c_step[of _ _ t i u k a u'] step_length[of k a u u'] by simp
  qed
  then have c: "call_c (count_list (log s1) ?R) (count_list (log s1) ?Q) t i s"
    and tl: "t < length (clients s)" by simp_all
  have req: "requested t i s1 s" if "returned t i s1 s \<or> past64 (cpc (clients s ! t))"
    using c that by (auto simp: call_c_def returned_def requested_def)
  have rest: "intest (cpc (clients s ! t)) \<and>
            count_list tr (AClient t) + crank (deviceReady s) (cpc (clients s ! t)) \<le> 9 \<and>
            (cpc (clients s ! t) = C74 \<longrightarrow> wpc s \<noteq> W114s) \<and>
            (cpc (clients s ! t) = C71s \<longrightarrow>
               0 < wprep (wpc s) \<and>
               (\<forall>s'. run k s = Some s' \<longrightarrow>
                  wprep (wpc s') < wprep (wpc s) \<and>
                  (wprep (wpc s') = 0 \<longrightarrow> cpc (clients s' ! t) = C71w))) \<and>
            (wpc s = W130 \<longrightarrow> mutex s \<noteq> Some Worker) \<and>
            (\<forall>a s'. mutex s \<noteq> None \<and> actor a = mutex s \<and> step k a s = Some s' \<longrightarrow>
               sect s' < sect s) \<and>
            ((\<exists>s'. cstep t s = Some s') \<or>
             (\<exists>a s'. mutex s \<noteq> None \<and> actor a = mutex s \<and> step k a s = Some s') \<or>
             (cpc (clients s ! t) = C71s \<and> (\<exists>s'. run k s = Some s')))"
    if nr: "\<not> returned t i s1 s"
  proof -
    have eq: "count_list (log s) ?R = count_list (log s1) ?R"
      using c nr by (auto simp: call_c_def returned_def)
    then have ic: "incall i s t" using c by (simp add: call_c_def)
    then have it: "intest (cpc (clients s ! t))" by (simp add: incall_def)
    have rc: "ready_c s t" and h: "holder_ok s" using r tl by (auto simp: ready_ok_def)
    have "count_list tr (AClient t) + crank (deviceReady s) (cpc (clients s ! t))
            \<le> crank (deviceReady s1) (cpc (clients s1 ! t))"
      using assms(3) r1 assms(4) t1 c1 eq by (rule crank_exec)
    then have b: "count_list tr (AClient t) + crank (deviceReady s) (cpc (clients s ! t)) \<le> 9"
      using p1 by simp
    have w: "cpc (clients s ! t) = C74 \<longrightarrow> wpc s \<noteq> W114s"
      using rc by (simp add: ready_c_def)
    have sl: "0 < wprep (wpc s) \<and>
               (\<forall>s'. run k s = Some s' \<longrightarrow>
                  wprep (wpc s') < wprep (wpc s) \<and>
                  (wprep (wpc s') = 0 \<longrightarrow> cpc (clients s' ! t) = C71w))"
      if z: "cpc (clients s ! t) = C71s"
    proof -
      have p: "0 < wprep (wpc s)" using rc assms(4) z by (simp add: ready_c_def)
      show ?thesis using p wake_run[OF p tl z] by blast
    qed
    have m: "wpc s = W130 \<longrightarrow> mutex s \<noteq> Some Worker"
      using whold_130[OF o] by blast
    have sc: "\<forall>a s'. mutex s \<noteq> None \<and> actor a = mutex s \<and> step k a s = Some s' \<longrightarrow>
               sect s' < sect s"
      using sect_step[OF o] by blast
    show ?thesis using it b w sl m sc call_progress[OF h o rc assms(4) tl it, of k] by blast
  qed
  show ?thesis using req rest by blast
qed

section \<open>Runs of concrete schedules\<close>

lemmas evals = sdk_ok_def sdk_fail_def init_def step_def start_def run_def cstep_def
  testPerformance_def waitPerformance_def destructor_def
  destroy_def call_def lock_def goto_def wakeAll_def wakeNewLoop_def isRunning_def
  prepareDevice_def updateInfo_def cleanDevice_def boot_def request5_def eval_nat_numeral

text \<open>
  C1 as stated fails. Caller 0 calls \<^verbatim>\<open>waitPerformance\<close> while a pass requested
  earlier is running, finds \<^verbatim>\<open>testRunning\<close> set and sleeps in line 92; the destructor
  clears the flag (line 46) and wakes it (line 47); the call returns while the worker is
  still inside \<^verbatim>\<open>updateInfo\<close> (line 130): no pass has ended since the call.
\<close>

theorem wait_released_during_pass:
  "map_option log (exec sdk_ok c1_trace (init 1 0)) =
     Some [Ret 0 WaitPerformance, Destroy, Req 0 (-1), Call 0 WaitPerformance, Began,
           Ret 0 (TestPerformance 5), Req 0 5, Call 0 (TestPerformance 5), Prepared 0] \<and>
   map_option wpc (exec sdk_ok c1_trace (init 1 0)) = Some W130 \<and>
   \<not> ended_after_request 0 (since 0 [Destroy, Req 0 (-1), Call 0 WaitPerformance, Began,
           Ret 0 (TestPerformance 5), Req 0 5, Call 0 (TestPerformance 5), Prepared 0])"
  by (simp add: c1_trace_def evals)


text \<open>
  C3 as stated fails. After two calls \<^verbatim>\<open>testPerformance(5)\<close> in a row the worker
  performs one pass, emits 5 and sleeps again in line 114; neither the worker nor the
  caller can execute a step: there is no second pass.
\<close>

theorem second_request_starts_no_pass:
  "map_option log (exec sdk_ok c3_trace (init 1 0)) =
     Some [Emit 5, Ended, Updated 0, Began,
           Ret 0 (TestPerformance 5), Req 0 5, Call 0 (TestPerformance 5),
           Ret 0 (TestPerformance 5), Req 0 5, Call 0 (TestPerformance 5), Prepared 0] \<and>
   map_option wpc (exec sdk_ok c3_trace (init 1 0)) = Some W114s \<and>
   map_option clients (exec sdk_ok c3_trace (init 1 0)) =
     Some [\<lparr>cpc = C_idle, carg = 5, cwait = False\<rparr>] \<and>
   Option.bind (exec sdk_ok c3_trace (init 1 0)) (run sdk_ok) = None \<and>
   Option.bind (exec sdk_ok c3_trace (init 1 0)) (cstep 0) = None"
  by (simp add: c3_trace_def evals)

text \<open>
  C5 fails on the code. Caller 0 sleeps in the first loop of \<^verbatim>\<open>waitPerformance\<close>
  (line 89) when the destructor runs. Line 45 wakes it, but the destructor clears
  \<^verbatim>\<open>testRunning\<close> again (line 46) before it releases the mutex, so the caller finds the
  flag clear and sleeps again. The destructor has returned, the worker has finished, and
  the caller is still asleep in line 89; no thread can execute a step.
\<close>

theorem teardown_leaves_waiter_asleep:
  "map_option log (exec sdk_ok c5_trace (init 1 0)) =
     Some [Destroyed, Cleaned 0, Destroy, Ended, Updated 0, Began, Req 0 (-1),
           Call 0 WaitPerformance, Prepared 0] \<and>
   map_option dpc (exec sdk_ok c5_trace (init 1 0)) = Some D_done \<and>
   map_option wpc (exec sdk_ok c5_trace (init 1 0)) = Some W_fin \<and>
   map_option clients (exec sdk_ok c5_trace (init 1 0)) =
     Some [\<lparr>cpc = C89s, carg = -1, cwait = True\<rparr>] \<and>
   Option.bind (exec sdk_ok c5_trace (init 1 0)) (cstep 0) = None \<and>
   Option.bind (exec sdk_ok c5_trace (init 1 0)) (run sdk_ok) = None \<and>
   Option.bind (exec sdk_ok c5_trace (init 1 0)) (destructor 0) = None"
  by (simp add: c5_trace_def evals)

text \<open>
  C6 as stated fails for the worker's wait. \<^verbatim>\<open>testPerformance(7)\<close> is called and
  returns while a pass is running: its wake-up of \<^verbatim>\<open>newLoop\<close> finds nobody asleep.
  The worker ends the pass, emits 7, and sleeps in line 114 although a request was made
  after the pass began; neither thread can execute a step.
\<close>

theorem request_during_pass_is_lost:
  "map_option log (exec sdk_ok c6_trace (init 1 0)) =
     Some [Emit 7, Ended, Updated 0,
           Ret 0 (TestPerformance 7), Req 0 7, Call 0 (TestPerformance 7), Began,
           Ret 0 (TestPerformance 5), Req 0 5, Call 0 (TestPerformance 5), Prepared 0] \<and>
   map_option wpc (exec sdk_ok c6_trace (init 1 0)) = Some W114s \<and>
   map_option clients (exec sdk_ok c6_trace (init 1 0)) =
     Some [\<lparr>cpc = C_idle, carg = 7, cwait = False\<rparr>] \<and>
   Option.bind (exec sdk_ok c6_trace (init 1 0)) (run sdk_ok) = None \<and>
   Option.bind (exec sdk_ok c6_trace (init 1 0)) (cstep 0) = None"
  by (simp add: c6_trace_def evals)

text \<open>
  C8. In every reachable state the passes of the worker are serial: \<^verbatim>\<open>testRunning\<close> is
  set by the worker only when the pass before has been ended, \<^verbatim>\<open>updateInfo\<close> returns
  once in every pass, and the passes begun are the passes ended and at most one more.
\<close>

theorem one_pass_at_a_time:
  assumes "exec k tr (init n d) = Some s"
  shows "serial (log s) \<and> phase (log s) = wphase (wpc s) \<and>
         count_list (log s) Began =
           count_list (log s) Ended + (if phase (log s) = 0 then 0 else 1)"
proof -
  have "log_ok s" using assms by (rule log_ok_exec)
  then have "serial (log s)" and "phase (log s) = wphase (wpc s)"
    by (simp_all add: log_ok_defs)
  then show ?thesis using serial_count[of "log s"] by simp
qed

text \<open>
A run that stops with the worker inside \<^verbatim>\<open>updateInfo\<close>.
\<close>

theorem one_pass_at_a_time_witness:
  "\<exists>s. exec sdk_ok mid_pass_trace (init 1 0) = Some s \<and> wpc s = W130 \<and>
       serial (log s) \<and> phase (log s) = 1 \<and>
       count_list (log s) Began = Suc (count_list (log s) Ended)"
proof -
  obtain s where e: "exec sdk_ok mid_pass_trace (init 1 0) = Some s" and w: "wpc s = W130"
    by (simp add: mid_pass_trace_def evals)
  from one_pass_at_a_time[OF e] w show ?thesis using e by auto
qed

text \<open>
  C3, as amended. \<^verbatim>\<open>index\<close> holds the value written by the most recent request and
  no other (requests are not queued), and every \<^verbatim>\<open>testedPerformance\<close> emitted reports
  the value most recently written before the emission. After two requests for 5 and no
  other that is 5.
\<close>

theorem notification_reports_latest_request:
  assumes "exec k tr (init n d) = Some s"
  shows "index s = last_req (log s) \<and> emits_ok (log s)"
proof -
  have "log_ok s" using assms by (rule log_ok_exec)
  then show ?thesis by (simp add: log_ok_defs)
qed

text \<open>
  A run in which the pass requested for 5 reports 7, the index of the request made while
  it ran.
\<close>

theorem notification_reports_latest_request_witness:
  "\<exists>s. exec sdk_ok c6_trace (init 1 0) = Some s \<and> hd (log s) = Emit 7 \<and>
       index s = last_req (log s) \<and> emits_ok (log s)"
proof -
  obtain s where e: "exec sdk_ok c6_trace (init 1 0) = Some s" and h: "hd (log s) = Emit 7"
    by (simp add: c6_trace_def evals)
  from notification_reports_latest_request[OF e] h show ?thesis using e by auto
qed

text \<open>
A call of \<^verbatim>\<open>waitPerformance\<close> that returns with the destructor not entered.
\<close>

theorem wait_returns_after_pass_end_witness:
  "\<exists>s. exec sdk_ok c2_trace (init 1 0) = Some s \<and> dpc s = D_none \<and>
       log s = Ret 0 WaitPerformance # tl (log s) \<and>
       ended_after_request 0 (since 0 (tl (log s)))"
proof -
  obtain s where e: "exec sdk_ok c2_trace (init 1 0) = Some s" and n: "dpc s = D_none"
    and l: "log s = Ret 0 WaitPerformance # tl (log s)"
    by (simp add: c2_trace_def evals)
  from wait_returns_after_pass_end[OF e n l] show ?thesis using e n l by blast
qed


text \<open>
  The destructor takes the mutex while the worker is inside \<^verbatim>\<open>updateInfo\<close>; it
  returns after the pass has ended and \<^verbatim>\<open>cleanDevice\<close> has been called.
\<close>

theorem teardown_ends_worker_witness:
  "\<exists>s1 s. exec sdk_ok teardown_before (init 1 0) = Some s1 \<and> dpc s1 = D40 \<and> wpc s1 = W130 \<and>
       exec sdk_ok teardown_after s1 = Some s \<and> dpc s = D_done \<and>
       cleaned (log s) \<and> phase (log s) = 0"
proof -
  obtain s1 where e1: "exec sdk_ok teardown_before (init 1 0) = Some s1"
    and d1: "dpc s1 = D40" and w1: "wpc s1 = W130"
    and x: "\<exists>s. exec sdk_ok teardown_after s1 = Some s \<and> dpc s = D_done"
    by (simp add: teardown_before_def teardown_after_def evals)
  from x obtain s where e2: "exec sdk_ok teardown_after s1 = Some s" and d2: "dpc s = D_done"
    by blast
  from w1 have w: "wpc s1 = W114s \<or> wpc s1 = W130" by simp
  from teardown_ends_worker[OF e1 d1 w e2] d2
  have "cleaned (log s) \<and> phase (log s) = 0" by blast
  then show ?thesis using e1 d1 w1 e2 d2 by blast
qed

text \<open>
Runs that stop with caller 0 at line 73, at line 90 and at line 93.
\<close>

theorem guarded_waits_witness:
  "(\<exists>s. exec sdk_ok at_line73 (init 1 0) = Some s \<and> cpc (clients s ! 0) = C73 \<and>
        deviceReady s \<and> mutex s = Some (Client 0)) \<and>
   (\<exists>s. exec sdk_ok at_line90 (init 1 0) = Some s \<and> cpc (clients s ! 0) = C90 \<and>
        testRunning s \<and> mutex s = Some (Client 0)) \<and>
   (\<exists>s. exec sdk_ok at_line93 (init 1 0) = Some s \<and> cpc (clients s ! 0) = C93 \<and>
        \<not> testRunning s \<and> mutex s = Some (Client 0))"
proof -
  obtain s1 where e1: "exec sdk_ok at_line73 (init 1 0) = Some s1"
    and c1: "cpc (clients s1 ! 0) = C73" and l1: "0 < length (clients s1)"
    by (simp add: at_line73_def evals)
  obtain s2 where e2: "exec sdk_ok at_line90 (init 1 0) = Some s2"
    and c2: "cpc (clients s2 ! 0) = C90" and l2: "0 < length (clients s2)"
    by (simp add: at_line90_def evals)
  obtain s3 where e3: "exec sdk_ok at_line93 (init 1 0) = Some s3"
    and c3: "cpc (clients s3 ! 0) = C93" and l3: "0 < length (clients s3)"
    by (simp add: at_line93_def evals)
  from guarded_waits[OF e1 l1] c1
  have "deviceReady s1 \<and> mutex s1 = Some (Client 0)" by simp
  moreover from guarded_waits[OF e2 l2] c2
  have "testRunning s2 \<and> mutex s2 = Some (Client 0)" by simp
  moreover from guarded_waits[OF e3 l3] c3
  have "\<not> testRunning s3 \<and> mutex s3 = Some (Client 0)" by simp
  ultimately show ?thesis using e1 c1 e2 c2 e3 c3 by blast
qed

text \<open>
  A run on the failing device and the same schedule on the other one: the same control
  state and events, the notification for index 5 included, and the record still 0.
\<close>

theorem return_codes_ignored_witness:
  "\<exists>s s'. exec sdk_fail c3_trace (init 1 0) = Some s \<and> hd (log s) = Emit 5 \<and> dev s = 0 \<and>
       exec sdk_ok c3_trace (init 1 7) = Some s' \<and> control s' = control s \<and>
       dev s = foldr (redo sdk_fail) (log s) 0"
proof -
  obtain s where e: "exec sdk_fail c3_trace (init 1 0) = Some s"
    and h: "hd (log s) = Emit 5" and d: "dev s = 0"
    by (simp add: c3_trace_def evals)
  from return_codes_ignored[OF e, of sdk_ok 7] show ?thesis using e h d by auto
qed

text \<open>
  C4 fails on the code. In the first schedule the destructor runs right after the thread
  was started, while the worker is inside \<^verbatim>\<open>prepareDevice\<close>: the wake-up of line 43
  finds nobody asleep on \<^verbatim>\<open>newLoop\<close> and is lost. The worker then sleeps in line 114
  with \<^verbatim>\<open>abort\<close> set, which it tests only in lines 120 and 140; the destructor waits in
  line 50, \<^verbatim>\<open>cleanDevice\<close> is never called, and no thread can make a step. In the
  second schedule the destructor is entered after a pass, when the worker has made its
  test of \<^verbatim>\<open>abort\<close> in line 140 and has not yet reached its wait in line 114: the
  end is the same.
\<close>

theorem teardown_leaves_worker_asleep:
  "map_option log (exec sdk_ok teardown_at_start (init 1 0)) = Some [Prepared 0, Destroy] \<and>
   map_option wpc (exec sdk_ok teardown_at_start (init 1 0)) = Some W114s \<and>
   map_option dpc (exec sdk_ok teardown_at_start (init 1 0)) = Some D50 \<and>
   map_option abort (exec sdk_ok teardown_at_start (init 1 0)) = Some True \<and>
   Option.bind (exec sdk_ok teardown_at_start (init 1 0)) (run sdk_ok) = None \<and>
   Option.bind (exec sdk_ok teardown_at_start (init 1 0)) (destructor 0) = None \<and>
   Option.bind (exec sdk_ok teardown_at_start (init 1 0)) (cstep 0) = None \<and>
   map_option log (exec sdk_ok teardown_late (init 1 0)) =
     Some [Destroy, Emit 5, Ended, Updated 0, Began,
           Ret 0 (TestPerformance 5), Req 0 5, Call 0 (TestPerformance 5), Prepared 0] \<and>
   map_option wpc (exec sdk_ok teardown_late (init 1 0)) = Some W114s \<and>
   map_option dpc (exec sdk_ok teardown_late (init 1 0)) = Some D50 \<and>
   map_option abort (exec sdk_ok teardown_late (init 1 0)) = Some True \<and>
   Option.bind (exec sdk_ok teardown_late (init 1 0)) (run sdk_ok) = None \<and>
   Option.bind (exec sdk_ok teardown_late (init 1 0)) (destructor 0) = None \<and>
   Option.bind (exec sdk_ok teardown_late (init 1 0)) (cstep 0) = None"
  by (simp add: teardown_at_start_def teardown_late_def evals)

text \<open>
  A call of \<^verbatim>\<open>waitPerformance\<close> made while a pass is open need not see that pass
  either. Here the pass ends while the caller is between line 74 and line 86; its
  wake-up of line 73 found the worker busy and was lost, so no further pass begins. The
  caller sleeps in line 89 and the worker in line 114; the destructor has not been
  entered, and neither thread can make a step.
\<close>

theorem wait_sleeps_after_missed_pass:
  "map_option log (exec sdk_ok missed_pass_trace (init 1 0)) =
     Some [Ended, Updated 0, Req 0 (-1), Call 0 WaitPerformance, Began,
           Ret 0 (TestPerformance 5), Req 0 5, Call 0 (TestPerformance 5), Prepared 0] \<and>
   map_option dpc (exec sdk_ok missed_pass_trace (init 1 0)) = Some D_none \<and>
   map_option wpc (exec sdk_ok missed_pass_trace (init 1 0)) = Some W114s \<and>
   map_option clients (exec sdk_ok missed_pass_trace (init 1 0)) =
     Some [\<lparr>cpc = C89s, carg = -1, cwait = True\<rparr>] \<and>
   Option.bind (exec sdk_ok missed_pass_trace (init 1 0)) (run sdk_ok) = None \<and>
   Option.bind (exec sdk_ok missed_pass_trace (init 1 0)) (cstep 0) = None"
  by (simp add: missed_pass_trace_def evals)

text \<open>
  The test of line 137 and the read of line 138 are not one step. The pass requested for
  5 has ended and the worker has found \<^verbatim>\<open>index\<close> different from \<open>-1\<close>; caller 0 enters
  \<^verbatim>\<open>waitPerformance\<close> and writes \<open>-1\<close> (line 64); the worker emits
  \<^verbatim>\<open>testedPerformance(-1)\<close>.
\<close>

theorem notification_may_report_minus_one:
  "map_option log (exec sdk_ok race_trace (init 1 0)) =
     Some [Emit (-1), Req 0 (-1), Call 0 WaitPerformance, Ended, Updated 0, Began,
           Ret 0 (TestPerformance 5), Req 0 5, Call 0 (TestPerformance 5), Prepared 0]"
  by (simp add: race_trace_def evals)

text \<open>
  C7 as stated fails. A call made while the worker is inside \<^verbatim>\<open>prepareDevice\<close> sleeps
  in line 71: the caller has no step before the worker has set \<^verbatim>\<open>deviceReady\<close>. And
  a call that overlaps the destructor may never return: in the second schedule the
  worker leaves its loop and clears \<^verbatim>\<open>deviceReady\<close> (line 148) before the caller
  tests it in line 70; the caller sleeps in line 71, the worker finishes, the destructor
  returns, and no thread can make a step.
\<close>

theorem testPerformance_blocks:
  "map_option log (exec sdk_ok prepare_trace (init 1 0)) =
     Some [Req 0 3, Call 0 (TestPerformance 3)] \<and>
   map_option wpc (exec sdk_ok prepare_trace (init 1 0)) = Some W105 \<and>
   map_option clients (exec sdk_ok prepare_trace (init 1 0)) =
     Some [\<lparr>cpc = C71s, carg = 3, cwait = False\<rparr>] \<and>
   Option.bind (exec sdk_ok prepare_trace (init 1 0)) (cstep 0) = None \<and>
   map_option log (exec sdk_ok c7_trace (init 1 0)) =
     Some [Destroyed, Cleaned 0, Req 0 3, Destroy, Call 0 (TestPerformance 3), Prepared 0] \<and>
   map_option dpc (exec sdk_ok c7_trace (init 1 0)) = Some D_done \<and>
   map_option wpc (exec sdk_ok c7_trace (init 1 0)) = Some W_fin \<and>
   map_option clients (exec sdk_ok c7_trace (init 1 0)) =
     Some [\<lparr>cpc = C71s, carg = 3, cwait = False\<rparr>] \<and>
   Option.bind (exec sdk_ok c7_trace (init 1 0)) (cstep 0) = None \<and>
   Option.bind (exec sdk_ok c7_trace (init 1 0)) (run sdk_ok) = None \<and>
   Option.bind (exec sdk_ok c7_trace (init 1 0)) (destructor 0) = None"
  by (simp add: prepare_trace_def c7_trace_def evals)

text \<open>
  Two calls: one made while the worker is inside \<^verbatim>\<open>prepareDevice\<close>, asleep in line 71
  after four steps with the worker able to go on; one made while the worker is inside
  \<^verbatim>\<open>updateInfo\<close>, which returns after six steps with the worker still there.
\<close>

theorem testPerformance_waits_for_preparation_only_witness:
  "(\<exists>s0 s1 s. exec sdk_ok [AStart] (init 1 0) = Some s0 \<and>
       call 0 (TestPerformance 3) s0 = Some s1 \<and>
       exec sdk_ok (replicate 4 (AClient 0)) s1 = Some s \<and> dpc s = D_none \<and>
       \<not> returned 0 3 s1 s \<and> requested 0 3 s1 s \<and>
       cpc (clients s ! 0) = C71s \<and> wpc s = W105 \<and> (\<exists>s'. run sdk_ok s = Some s')) \<and>
   (\<exists>s0 s1 s. exec sdk_ok mid_pass_trace (init 1 0) = Some s0 \<and> wpc s0 = W130 \<and>
       call 0 (TestPerformance 3) s0 = Some s1 \<and>
       exec sdk_ok (replicate 6 (AClient 0)) s1 = Some s \<and> dpc s = D_none \<and>
       returned 0 3 s1 s \<and> requested 0 3 s1 s \<and> wpc s = W130)"
proof -
  obtain s0 s1 s where a: "exec sdk_ok [AStart] (init 1 0) = Some s0"
    and b: "call 0 (TestPerformance 3) s0 = Some s1"
    and c: "exec sdk_ok (replicate 4 (AClient 0)) s1 = Some s" and n: "dpc s = D_none"
    and r: "\<not> returned 0 3 s1 s" and p: "cpc (clients s ! 0) = C71s" and w: "wpc s = W105"
    and m: "mutex s = None" and cs: "cstep 0 s = None"
    by (simp add: returned_def evals)
  from testPerformance_waits_for_preparation_only[OF a b c n] r
  have "(past64 (cpc (clients s ! 0)) \<longrightarrow> requested 0 3 s1 s) \<and>
        ((\<exists>s'. cstep 0 s = Some s') \<or>
         (\<exists>a s'. mutex s \<noteq> None \<and> actor a = mutex s \<and> step sdk_ok a s = Some s') \<or>
         (cpc (clients s ! 0) = C71s \<and> (\<exists>s'. run sdk_ok s = Some s')))"
    by blast
  then have "requested 0 3 s1 s \<and> (\<exists>s'. run sdk_ok s = Some s')"
    using p m cs by simp
  then have x: "\<exists>s0 s1 s. exec sdk_ok [AStart] (init 1 0) = Some s0 \<and>
       call 0 (TestPerformance 3) s0 = Some s1 \<and>
       exec sdk_ok (replicate 4 (AClient 0)) s1 = Some s \<and> dpc s = D_none \<and>
       \<not> returned 0 3 s1 s \<and> requested 0 3 s1 s \<and>
       cpc (clients s ! 0) = C71s \<and> wpc s = W105 \<and> (\<exists>s'. run sdk_ok s = Some s')"
    using a b c n r p w by blast
  obtain t0 t1 t where a': "exec sdk_ok mid_pass_trace (init 1 0) = Some t0"
    and w0: "wpc t0 = W130"
    and b': "call 0 (TestPerformance 3) t0 = Some t1"
    and c': "exec sdk_ok (replicate 6 (AClient 0)) t1 = Some t" and n': "dpc t = D_none"
    and r': "returned 0 3 t1 t" and w': "wpc t = W130"
    by (simp add: mid_pass_trace_def returned_def evals)
  from testPerformance_waits_for_preparation_only[OF a' b' c' n'] r'
  have "requested 0 3 t1 t" by blast
  then have y: "\<exists>s0 s1 s. exec sdk_ok mid_pass_trace (init 1 0) = Some s0 \<and> wpc s0 = W130 \<and>
       call 0 (TestPerformance 3) s0 = Some s1 \<and>
       exec sdk_ok (replicate 6 (AClient 0)) s1 = Some s \<and> dpc s = D_none \<and>
       returned 0 3 s1 s \<and> requested 0 3 s1 s \<and> wpc s = W130"
    using a' w0 b' c' n' r' w' by blast
  show ?thesis using x y by blast
qed

section \<open>The benchmark operation\<close>

text \<open>
  C10. \<^verbatim>\<open>updateInfo\<close> returns \<open>-1\<close> as soon as the bandwidth measurement returns \<open>-1\<close>,
  and then the throughput measurement is not called: the record is as the bandwidth
  measurement left it and the only SDK call made is that one. Otherwise the result, the
  record and the return code are those of the throughput measurement, run on the record
  the bandwidth measurement left.
\<close>

theorem updateInfo_short_circuit:
  "updateInfo k d =
     (if fst (CZCudaCalcDeviceBandwidth k d) = -1
      then (-1, snd (CZCudaCalcDeviceBandwidth k d), [CalcBandwidth])
      else (fst (CZCudaCalcDevicePerformance k (snd (CZCudaCalcDeviceBandwidth k d))),
            snd (CZCudaCalcDevicePerformance k (snd (CZCudaCalcDeviceBandwidth k d))),
            [CalcBandwidth, CalcPerformance]))"
  by (simp add: updateInfo_def split: prod.split)

end
